theory Spec2Isabelle
  imports Main "HOL-Library.Word" "HOL-Library.Multiset"
begin

unbundle bit_operations_syntax

section \<open>JavaScript values used by the hash ring\<close>

text \<open>
  The ring of \<^verbatim>\<open>consistent-hash.js\<close> works on JavaScript numbers that hold integers.
  They are modelled as \<open>int\<close>; the bitwise operators convert their operands to 32-bit
  words first, which is written out below. A value that may be \<^verbatim>\<open>undefined\<close> (an array
  read out of range) or \<^verbatim>\<open>NaN\<close> (a remainder by zero) is an \<open>int option\<close> with
  \<open>None\<close> for it: every comparison with \<^verbatim>\<open>undefined\<close> or \<^verbatim>\<open>NaN\<close> is false.
\<close>

type_synonym jsnum = "int option"

text \<open>\<^verbatim>\<open>array[k]\<close>: \<^verbatim>\<open>undefined\<close> outside the array.\<close>

definition js_idx :: "'a list \<Rightarrow> int \<Rightarrow> 'a option" where
  "js_idx array k = (if 0 \<le> k \<and> k < int (length array) then Some (array ! nat k) else None)"

text \<open>\<^verbatim>\<open>x < y\<close> and \<^verbatim>\<open>x >= y\<close> on numbers.\<close>

definition js_lt :: "jsnum \<Rightarrow> jsnum \<Rightarrow> bool" where
  "js_lt x y = (case x of None \<Rightarrow> False | Some a \<Rightarrow> (case y of None \<Rightarrow> False | Some b \<Rightarrow> a < b))"

definition js_ge :: "jsnum \<Rightarrow> jsnum \<Rightarrow> bool" where
  "js_ge x y = (case x of None \<Rightarrow> False | Some a \<Rightarrow> (case y of None \<Rightarrow> False | Some b \<Rightarrow> a \<ge> b))"

text \<open>\<^verbatim>\<open>x % y\<close>: the remainder takes the sign of the dividend, and is \<^verbatim>\<open>NaN\<close> for \<open>y = 0\<close>.\<close>

definition js_rem :: "int \<Rightarrow> int \<Rightarrow> jsnum" where
  "js_rem x y = (if y = 0 then None else Some (sgn x * (\<bar>x\<bar> mod \<bar>y\<bar>)))"

text \<open>\<^verbatim>\<open>x << k\<close>, \<^verbatim>\<open>x & y\<close>, \<^verbatim>\<open>x ^ y\<close> (signed 32-bit results) and \<^verbatim>\<open>x >>> k\<close> (unsigned).\<close>

definition js_shl :: "int \<Rightarrow> nat \<Rightarrow> int" where
  "js_shl x k = sint (push_bit k (word_of_int x :: 32 word))"

definition js_and :: "int \<Rightarrow> int \<Rightarrow> int" where
  "js_and x y = sint ((word_of_int x :: 32 word) AND word_of_int y)"

definition js_xor :: "int \<Rightarrow> int \<Rightarrow> int" where
  "js_xor x y = sint ((word_of_int x :: 32 word) XOR word_of_int y)"

definition js_ushr :: "int \<Rightarrow> nat \<Rightarrow> int" where
  "js_ushr x k = uint (drop_bit k (word_of_int x :: 32 word))"

section \<open>Binary search with wrap-around: \<^verbatim>\<open>_absearch\<close>\<close>

text \<open>
  \<^verbatim>\<open>
  function _absearch( array, key ) {
      var i, j, mid, gap = 25, len = array.length
      for (i=0, j=len-1; j - i > gap; ) {
          mid = (i + j) >>> 1
          if (array[mid] < key) i = mid + 1
          else j = mid
      }
      for ( ; i<len; i++) if (array[i] >= key) return i
      return array.length === 0 ? -1 : 0
  }
  \<close>
  The bisection computes \<open>mid\<close> with an unsigned 32-bit shift, so \<open>i + j\<close> is
  reduced modulo \<open>2 ^ 32\<close> first. With that reduction \<open>mid\<close> can fall below \<open>i\<close> and
  the loop need not end, hence it is a partial function: \<open>None\<close> stands for a loop that
  does not return. The second loop and the final \<^verbatim>\<open>return\<close> are \<open>absearch_scan\<close>.
\<close>

definition gap :: int where
  "gap = 25"

partial_function (option) absearch_bisect :: "int list \<Rightarrow> jsnum \<Rightarrow> int \<Rightarrow> int \<Rightarrow> int option" where
  "absearch_bisect array key i j =
     (if j - i > gap then
        (let mid = ((i + j) mod 2 ^ 32) div 2 in
         if js_lt (js_idx array mid) key then absearch_bisect array key (mid + 1) j
         else absearch_bisect array key i mid)
      else Some i)"

declare absearch_bisect.simps [code]

function absearch_scan :: "int list \<Rightarrow> jsnum \<Rightarrow> int \<Rightarrow> int" where
  "absearch_scan array key i =
     (if i < int (length array) then
        (if js_ge (js_idx array i) key then i else absearch_scan array key (i + 1))
      else (if length array = 0 then - 1 else 0))"
  by pat_completeness auto
termination
  by (relation "measure (\<lambda>(array, key, i). nat (int (length array) - i))") auto

definition absearch :: "int list \<Rightarrow> jsnum \<Rightarrow> int option" where
  "absearch array key =
     map_option (absearch_scan array key) (absearch_bisect array key 0 (int (length array) - 1))"

declare absearch_scan.simps [simp del]

section \<open>The string hash: \<^verbatim>\<open>_hash\<close>\<close>

text \<open>
  A JavaScript string is a sequence of 16-bit code units; \<^verbatim>\<open>s.charCodeAt(i)\<close> reads one.
  \<^verbatim>\<open>
  function _pjwHash(s) {
      var len = s.length
      var g, h = 0
      for (var i=0; i<len; i++) {
          h = (h << 4) + s.charCodeAt(i)
          g = h & 0xf000000           // isolate high 4 bits
          if (g) {
              h ^= g                  // clear high 4 bits
              h ^= (g >>> 24)         // xor high 4 bits into low byte
          }
      }
      return h
  }
  \<close>
  The addition is an addition of JavaScript numbers (exact on integers of this size), the
  other operators are the 32-bit ones above.
\<close>

type_synonym js_string = "16 word list"

fun pjwHash_loop :: "int \<Rightarrow> js_string \<Rightarrow> int" where
  "pjwHash_loop h [] = h"
| "pjwHash_loop h (c # s) =
     (let h1 = js_shl h 4 + uint c;
          g = js_and h1 0xf000000
      in pjwHash_loop (if g \<noteq> 0 then js_xor (js_xor h1 g) (js_ushr g 24) else h1) s)"

definition pjwHash :: "js_string \<Rightarrow> int" where
  "pjwHash s = pjwHash_loop 0 s"

text \<open>
  The rolling scheme as the specification words it, on an unsigned 32-bit accumulator:
  shift the accumulator left by 4 bits and add the character code; when bits 24 to 27
  of the result are set, xor them out and xor the same value, shifted right by 24, into
  the low byte.
\<close>

definition rolling_step :: "32 word \<Rightarrow> 16 word \<Rightarrow> 32 word" where
  "rolling_step acc c =
     (let w = push_bit 4 acc + ucast c;
          top = w AND 0xF000000
      in if top \<noteq> 0 then (w XOR top) XOR drop_bit 24 top else w)"

definition rolling_hash :: "js_string \<Rightarrow> 32 word" where
  "rolling_hash s = foldl rolling_step 0 s"

section \<open>The ring state\<close>

text \<open>
  The fields of a \<^verbatim>\<open>ConsistentHash\<close> object: \<^verbatim>\<open>_nodes\<close> and \<^verbatim>\<open>_nodeKeys\<close> are parallel
  arrays, \<^verbatim>\<open>_keyMap\<close> is an object used as a dictionary from control point to node,
  \<^verbatim>\<open>_keys\<close> is \<^verbatim>\<open>null\<close> or the sorted array of all control points, \<^verbatim>\<open>_range\<close> is the
  capacity. A property name of \<^verbatim>\<open>_keyMap\<close> is an integer or, when an array read out of
  range is used as the name, \<^verbatim>\<open>undefined\<close>: the dictionary is a map on \<open>jsnum\<close>.
  Nodes are opaque values other than \<^verbatim>\<open>undefined\<close>, compared by identity: a type
  parameter here, so that a dictionary lookup is \<^verbatim>\<open>undefined\<close> exactly when the map has
  no entry.
\<close>

record 'n ring =
  nodes :: "'n list"
  nodeKeys :: "int list list"
  keyMap :: "jsnum \<rightharpoonup> 'n"
  keys :: "int list option"
  range_cap :: int
  nodeCount :: int
  keyCount :: int

datatype error = RangeError | TypeError

datatype 'n js_result = JNull | JUndefined | JNode 'n

text \<open>
  The constructor: \<^verbatim>\<open>if (options.range) this._range = options.range\<close>, so a zero
  range is ignored and the prototype's 1009 stays. (The bit-flip table the constructor
  also fills is used by the unused \<^verbatim>\<open>_hash2\<close> only.)
\<close>

definition ConsistentHash :: "int option \<Rightarrow> 'n ring" where
  "ConsistentHash range_opt =
     \<lparr>nodes = [], nodeKeys = [], keyMap = Map.empty, keys = None,
      range_cap = (case range_opt of None \<Rightarrow> 1009 | Some x \<Rightarrow> if x \<noteq> 0 then x else 1009),
      nodeCount = 0, keyCount = 0\<rparr>"

section \<open>Adding a node\<close>

text \<open>\<^verbatim>\<open>_copy\<close> on an array: a new array filled index by index.\<close>

definition copy :: "'a list \<Rightarrow> 'a list" where
  "copy xs = map (\<lambda>i. xs ! i) [0..<length xs]"

text \<open>
  \<^verbatim>\<open>
  function _makeControlPoints( n ) {
      var attemptCount = 0
      var i, points = new Array(n)
      for (i=0; i<n; i++) {
          do {
              key = Math.random() * this._range >>> 0
          } while ((this._keyMap[key] !== undefined || points[key] !== undefined) && ++attemptCount < 10)
          points[i] = key
      }
      return points
  }
  \<close>
  The successive values of \<^verbatim>\<open>Math.random() * this._range >>> 0\<close> are an input: a stream
  \<open>draws\<close> of naturals and the position \<open>pos\<close> of the next draw. The array \<open>points\<close>
  is filled from index 0 upwards, so it is modelled by the list of its filled slots:
  \<^verbatim>\<open>points[key] !== undefined\<close> holds exactly when \<open>key\<close> is below the number of
  slots filled so far. \<open>draw_key\<close> is the do-while loop, \<open>makeControlPoints_loop\<close>
  the for loop; both return the counter and the stream position with their result.
\<close>

function draw_key :: "(jsnum \<rightharpoonup> 'n) \<Rightarrow> nat list \<Rightarrow> (nat \<Rightarrow> nat) \<Rightarrow> nat \<Rightarrow> nat \<Rightarrow> nat \<times> nat \<times> nat" where
  "draw_key km points draws attemptCount pos =
     (let key = draws pos in
      if km (Some (int key)) \<noteq> None \<or> key < length points then
        (if attemptCount + 1 < 10 then draw_key km points draws (attemptCount + 1) (pos + 1)
         else (key, attemptCount + 1, pos + 1))
      else (key, attemptCount, pos + 1))"
  by pat_completeness auto
termination
  by (relation "measure (\<lambda>(km, points, draws, attemptCount, pos). 10 - attemptCount)") auto

function makeControlPoints_loop ::
  "(jsnum \<rightharpoonup> 'n) \<Rightarrow> (nat \<Rightarrow> nat) \<Rightarrow> nat \<Rightarrow> nat list \<Rightarrow> nat \<Rightarrow> nat \<Rightarrow> nat list \<times> nat \<times> nat" where
  "makeControlPoints_loop km draws n points attemptCount pos =
     (if length points < n then
        (case draw_key km points draws attemptCount pos of
           (key, attemptCount', pos') \<Rightarrow>
             makeControlPoints_loop km draws n (points @ [key]) attemptCount' pos')
      else (points, attemptCount, pos))"
  by pat_completeness auto
termination
  by (relation "measure (\<lambda>(km, draws, n, points, attemptCount, pos). n - length points)") auto

declare draw_key.simps [simp del] makeControlPoints_loop.simps [simp del]

text \<open>\<^verbatim>\<open>new Array(n)\<close> throws a RangeError unless \<open>n\<close> is an integer in \<open>[0, 2^32)\<close>.\<close>

definition makeControlPoints :: "'n ring \<Rightarrow> int \<Rightarrow> (nat \<Rightarrow> nat) \<Rightarrow> error + int list" where
  "makeControlPoints r n draws =
     (if n < 0 \<or> 2 ^ 32 \<le> n then Inl RangeError
      else Inr (map int (fst (makeControlPoints_loop (keyMap r) draws (nat n) [] 0 0))))"

text \<open>
  \<^verbatim>\<open>
  function add( node, n, points ) {
      var i, key
      n = n || 1
      if (Array.isArray(points)) points = this._copy(points)
      else points = this._makeControlPoints(n)
      this._nodes.push(node)
      this._nodeKeys.push(points)
      for (i=0; i<n; i++) this._keyMap[points[i]] = node
      this._keys = null
      this.keyCount += n
      this.nodeCount += 1
      return this
  }
  \<close>
  The weight is absent (\<open>None\<close>) or an integer, the explicit points are absent or an
  array of integers.
\<close>

definition weight_of :: "int option \<Rightarrow> int" where
  "weight_of weight = (case weight of None \<Rightarrow> 1 | Some w \<Rightarrow> if w = 0 then 1 else w)"

definition map_points :: "(jsnum \<rightharpoonup> 'n) \<Rightarrow> int list \<Rightarrow> 'n \<Rightarrow> int \<Rightarrow> (jsnum \<rightharpoonup> 'n)" where
  "map_points km points node n = foldl (\<lambda>m i. m(js_idx points (int i) \<mapsto> node)) km [0..<nat n]"

definition add :: "'n ring \<Rightarrow> 'n \<Rightarrow> int option \<Rightarrow> int list option \<Rightarrow> (nat \<Rightarrow> nat) \<Rightarrow> error + 'n ring" where
  "add r node weight explicit draws =
     (let n = weight_of weight in
      case (case explicit of Some ps \<Rightarrow> Inr (copy ps) | None \<Rightarrow> makeControlPoints r n draws) of
        Inl e \<Rightarrow> Inl e
      | Inr points \<Rightarrow>
          Inr (r\<lparr>nodes := nodes r @ [node],
                 nodeKeys := nodeKeys r @ [points],
                 keyMap := map_points (keyMap r) points node n,
                 keys := None,
                 keyCount := keyCount r + n,
                 nodeCount := nodeCount r + 1\<rparr>))"

section \<open>Removing a node\<close>

text \<open>\<^verbatim>\<open>Array.prototype.indexOf\<close>: the first index holding the value, or -1.\<close>

fun indexOf :: "'a list \<Rightarrow> 'a \<Rightarrow> int" where
  "indexOf [] x = - 1"
| "indexOf (y # ys) x = (if y = x then 0 else (let k = indexOf ys x in if k < 0 then - 1 else k + 1))"

text \<open>
  \<^verbatim>\<open>
  function remove( node ) {
      var ix
      while ((ix = this._nodes.indexOf(node)) >= 0) {
          var keys = this._nodeKeys[ix]
          this._nodes[ix] = this._nodes[this._nodes.length - 1]
          this._nodes.length -= 1
          this._nodeKeys[ix] = this._nodeKeys[this._nodeKeys.length - 1]
          this._nodeKeys.length -= 1
          this._keys = null
          this.keyCount -= keys.length
          this.nodeCount -= 1
      }
      return this
  }
  \<close>
  Were \<^verbatim>\<open>_nodeKeys\<close> shorter than \<^verbatim>\<open>_nodes\<close>, \<^verbatim>\<open>keys\<close> would be \<^verbatim>\<open>undefined\<close> and
  \<^verbatim>\<open>keys.length\<close> a TypeError.
\<close>

function remove :: "'n ring \<Rightarrow> 'n \<Rightarrow> error + 'n ring" where
  "remove r node =
     (let ix = indexOf (nodes r) node in
      if 0 \<le> ix then
        (case js_idx (nodeKeys r) ix of
           None \<Rightarrow> Inl TypeError
         | Some ks \<Rightarrow>
             remove (r\<lparr>nodes := butlast ((nodes r)[nat ix := last (nodes r)]),
                       nodeKeys := butlast ((nodeKeys r)[nat ix := last (nodeKeys r)]),
                       keys := None,
                       keyCount := keyCount r - int (length ks),
                       nodeCount := nodeCount r - 1\<rparr>) node)
      else Inr r)"
  by pat_completeness auto
termination
proof (relation "measure (\<lambda>(r, node). length (nodes r))")
  fix r :: "'n ring" and node ix ks
  assume "ix = indexOf (nodes r) node" and "0 \<le> ix"
  then have "nodes r \<noteq> []" by (cases "nodes r") auto
  then show "((r\<lparr>nodes := butlast ((nodes r)[nat ix := last (nodes r)]),
                  nodeKeys := butlast ((nodeKeys r)[nat ix := last (nodeKeys r)]),
                  keys := None,
                  keyCount := keyCount r - int (length ks),
                  nodeCount := nodeCount r - 1\<rparr>, node), r, node)
              \<in> measure (\<lambda>(r, node). length (nodes r))"
    by simp
qed simp

declare remove.simps [simp del]

text \<open>The registrations: each node with its control points, in array order.\<close>

definition registrations :: "'n ring \<Rightarrow> ('n \<times> int list) list" where
  "registrations r = zip (nodes r) (nodeKeys r)"

section \<open>Looking a key up\<close>

text \<open>
  \<^verbatim>\<open>
  function _buildKeys( ) {
      var i, j, nodeKeys, keys = new Array()
      for (i=0; i<this._nodeKeys.length; i++) {
          nodeKeys = this._nodeKeys[i]
          for (j=0; j<nodeKeys.length; j++) keys.push(nodeKeys[j])
      }
      keys.sort(function(a,b){ return a - b })
      return this._keys = keys
  }

  function get( name ) {
      if (!this._keys) this._buildKeys()
      if (!this.keyCount) return null
      var h = this._hash(name)
      h = h % this._range
      var index = this._absearch(this._keys, h)
      return this._keyMap[this._keys[index]]
  }
  \<close>
  \<open>get\<close> returns its result and the ring with the cache it may have filled;
  \<open>None\<close> is a search that does not return.
\<close>

definition buildKeys :: "'n ring \<Rightarrow> int list \<times> 'n ring" where
  "buildKeys r = (let ks = sort (concat (nodeKeys r)) in (ks, r\<lparr>keys := Some ks\<rparr>))"

definition get :: "'n ring \<Rightarrow> js_string \<Rightarrow> ('n js_result \<times> 'n ring) option" where
  "get r name =
     (case (case keys r of None \<Rightarrow> buildKeys r | Some ks \<Rightarrow> (ks, r)) of
        (ks, r1) \<Rightarrow>
          if keyCount r1 = 0 then Some (JNull, r1)
          else
            (let h = js_rem (pjwHash name) (range_cap r1) in
             case absearch ks h of
               None \<Rightarrow> None
             | Some index \<Rightarrow>
                 Some (case keyMap r1 (js_idx ks index) of
                         None \<Rightarrow> JUndefined
                       | Some x \<Rightarrow> JNode x, r1)))"

section \<open>Sequences of public operations\<close>

text \<open>
  A ring state is reachable when a sequence of \<open>add\<close>, \<open>remove\<close> and \<open>get\<close> calls
  leads to it from a freshly constructed ring. \<open>run\<close> is \<open>None\<close> when a call throws
  or does not return.
\<close>

datatype 'n op = Add 'n "int option" "int list option" "nat \<Rightarrow> nat" | Remove 'n | Get js_string

fun step :: "'n ring \<Rightarrow> 'n op \<Rightarrow> 'n ring option" where
  "step r (Add node weight explicit draws) =
     (case add r node weight explicit draws of Inl e \<Rightarrow> None | Inr r' \<Rightarrow> Some r')"
| "step r (Remove node) = (case remove r node of Inl e \<Rightarrow> None | Inr r' \<Rightarrow> Some r')"
| "step r (Get name) = map_option snd (get r name)"

fun run :: "'n ring \<Rightarrow> 'n op list \<Rightarrow> 'n ring option" where
  "run r [] = Some r"
| "run r (x # xs) = (case step r x of None \<Rightarrow> None | Some r' \<Rightarrow> run r' xs)"

text \<open>An \<open>add\<close> whose explicit array, when there is one, has as many points as the weight says.\<close>

fun add_matches :: "'n op \<Rightarrow> bool" where
  "add_matches (Add node weight (Some ps) draws) = (weight_of weight = int (length ps))"
| "add_matches x = True"

fun added_nodes :: "'n op list \<Rightarrow> 'n list" where
  "added_nodes [] = []"
| "added_nodes (Add node weight explicit draws # xs) = node # added_nodes xs"
| "added_nodes (x # xs) = added_nodes xs"

text \<open>
  The properties of the data model that every call keeps when each explicit array has
  as many points as the weight says: the parallel arrays have one length, the counter is
  the number of registered control points, the cache is absent or up to date, every
  registered control point has an entry in the dictionary, and the range is not zero.
\<close>

definition ring_inv :: "'n ring \<Rightarrow> bool" where
  "ring_inv r \<longleftrightarrow>
     length (nodes r) = length (nodeKeys r) \<and>
     keyCount r = int (length (concat (nodeKeys r))) \<and>
     (keys r = None \<or> keys r = Some (sort (concat (nodeKeys r)))) \<and>
     (\<forall>p \<in> set (concat (nodeKeys r)). keyMap r (Some p) \<noteq> None) \<and>
     range_cap r \<noteq> 0"

section \<open>Concrete rings and call sequences\<close>

text \<open>Streams of draws: one that is never consulted, one that repeats 5, one that
  returns the taken value 1 ten times, then the taken value 2.\<close>

definition no_draws :: "nat \<Rightarrow> nat" where
  "no_draws i = 0"

definition draws_repeat :: "nat \<Rightarrow> nat" where
  "draws_repeat i = (if i < 2 then 5 else 7)"

definition draws_taken :: "nat \<Rightarrow> nat" where
  "draws_taken i = (if i < 10 then 1 else if i = 10 then 2 else 3)"

text \<open>Nodes A, B, C at the points 10, 50, 90 of a ring of range 100.\<close>

definition abc_ops :: "string op list" where
  "abc_ops = [Add ''A'' (Some 1) (Some [10]) no_draws,
              Add ''B'' (Some 1) (Some [50]) no_draws,
              Add ''C'' (Some 1) (Some [90]) no_draws]"

definition abc_ring :: "string ring" where
  "abc_ring = \<lparr>nodes = [''A'', ''B'', ''C''], nodeKeys = [[10], [50], [90]],
                keyMap = [Some 10 \<mapsto> ''A'', Some 50 \<mapsto> ''B'', Some 90 \<mapsto> ''C''],
                keys = None, range_cap = 100, nodeCount = 3, keyCount = 3\<rparr>"

text \<open>
  Nodes A and Z added at point 10, Z removed, then B and C added at 50 and 90, on a
  ring of range 100: the registrations are A at 10, B at 50 and C at 90.
\<close>

definition z_ops :: "string op list" where
  "z_ops = [Add ''A'' (Some 1) (Some [10]) no_draws,
            Add ''Z'' (Some 1) (Some [10]) no_draws,
            Remove ''Z'',
            Add ''B'' (Some 1) (Some [50]) no_draws,
            Add ''C'' (Some 1) (Some [90]) no_draws]"

definition z_ring :: "string ring" where
  "z_ring = \<lparr>nodes = [''A'', ''B'', ''C''], nodeKeys = [[10], [50], [90]],
              keyMap = [Some 10 \<mapsto> ''Z'', Some 50 \<mapsto> ''B'', Some 90 \<mapsto> ''C''],
              keys = None, range_cap = 100, nodeCount = 3, keyCount = 3\<rparr>"

text \<open>Node X registered twice, at 5 and at 500, with node Y between.\<close>

definition dup_ops :: "string op list" where
  "dup_ops = [Add ''X'' (Some 1) (Some [5]) no_draws,
              Add ''Y'' (Some 2) (Some [7, 8]) no_draws,
              Add ''X'' (Some 1) (Some [500]) no_draws]"

definition dup_ring :: "string ring" where
  "dup_ring = \<lparr>nodes = [''X'', ''Y'', ''X''], nodeKeys = [[5], [7, 8], [500]],
                keyMap = [Some 5 \<mapsto> ''X'', Some 7 \<mapsto> ''Y'', Some 8 \<mapsto> ''Y'', Some 500 \<mapsto> ''X''],
                keys = None, range_cap = 1009, nodeCount = 3, keyCount = 4\<rparr>"

text \<open>Nodes A and B added at the same point 5, then B removed.\<close>

definition stale_ops :: "string op list" where
  "stale_ops = [Add ''A'' (Some 1) (Some [5]) no_draws,
                Add ''B'' (Some 1) (Some [5]) no_draws,
                Remove ''B'']"

definition stale_ring :: "string ring" where
  "stale_ring = \<lparr>nodes = [''A''], nodeKeys = [[5]], keyMap = [Some 5 \<mapsto> ''B''],
                  keys = None, range_cap = 1009, nodeCount = 1, keyCount = 1\<rparr>"

text \<open>Node A alone at point 5; nodes A and B at the points 1 and 2.\<close>

definition one_ring :: "string ring" where
  "one_ring = \<lparr>nodes = [''A''], nodeKeys = [[5]], keyMap = [Some 5 \<mapsto> ''A''],
                keys = None, range_cap = 1009, nodeCount = 1, keyCount = 1\<rparr>"

definition taken_ring :: "string ring" where
  "taken_ring = \<lparr>nodes = [''A'', ''B''], nodeKeys = [[1], [2]],
                  keyMap = [Some 1 \<mapsto> ''A'', Some 2 \<mapsto> ''B''],
                  keys = None, range_cap = 1009, nodeCount = 2, keyCount = 2\<rparr>"

text \<open>The state after \<^verbatim>\<open>add("A", undefined, [10, 50, 90])\<close> on a fresh ring.\<close>

definition verbatim_ops :: "string op list" where
  "verbatim_ops = [Add ''A'' None (Some [10, 50, 90]) no_draws]"

definition verbatim_ring :: "string ring" where
  "verbatim_ring = \<lparr>nodes = [''A''], nodeKeys = [[10, 50, 90]], keyMap = [Some 10 \<mapsto> ''A''],
                     keys = None, range_cap = 1009, nodeCount = 1, keyCount = 1\<rparr>"

text \<open>
  An array of \<open>2^32 - 1\<close> zeros, the longest a JavaScript array can be, and the
  values the lower index of the bisection runs through when it searches that array
  for 1: zero and the powers of two up to \<open>2^31\<close>.
\<close>

definition zeros :: "int list" where
  "zeros = replicate (2 ^ 32 - 1) 0"

definition on_cycle :: "int \<Rightarrow> bool" where
  "on_cycle i \<longleftrightarrow> i = 0 \<or> (\<exists>n \<le> 31. i = 2 ^ n)"

section \<open>The binary search returns the first point at or after the key\<close>

lemma bisect_step:
  "gap < j - i \<Longrightarrow>
   absearch_bisect a key i j =
     (if js_lt (js_idx a (((i + j) mod 2 ^ 32) div 2)) key
      then absearch_bisect a key (((i + j) mod 2 ^ 32) div 2 + 1) j
      else absearch_bisect a key i (((i + j) mod 2 ^ 32) div 2))"
  by (subst absearch_bisect.simps) (simp only: Let_def if_True)

lemma bisect_stop: "\<not> gap < j - i \<Longrightarrow> absearch_bisect a key i j = Some i"
  by (subst absearch_bisect.simps) (simp only: if_False)

lemma bisect_ok:
  assumes srt: "sorted a" and len: "length a \<le> 2 ^ 31"
  shows "0 \<le> i \<Longrightarrow> j < int (length a) \<Longrightarrow> (\<forall>k < nat i. k < length a \<longrightarrow> a ! k < h) \<Longrightarrow>
     \<exists>i'. absearch_bisect a (Some h) i j = Some i' \<and> 0 \<le> i' \<and> (\<forall>k < nat i'. k < length a \<longrightarrow> a ! k < h)"
proof (induction "nat (j - i)" arbitrary: i j rule: less_induct)
  case less
  show ?case
  proof (cases "gap < j - i")
    case False
    then show ?thesis using less.prems by (simp add: bisect_stop)
  next
    case True
    define mid where "mid = ((i + j) mod 2 ^ 32) div 2"
    have ij: "0 \<le> i + j" "i + j < 2 ^ 32" using True less.prems len by (auto simp: gap_def)
    then have mid_eq: "mid = (i + j) div 2" by (simp add: mid_def)
    have mid_bounds: "i \<le> mid" "mid < j" using True mid_eq by (auto simp: gap_def)
    have mid_in: "0 \<le> mid" "mid < int (length a)" using mid_bounds less.prems by auto
    then have idx: "js_idx a mid = Some (a ! nat mid)" by (simp add: js_idx_def)
    have step: "absearch_bisect a (Some h) i j =
        (if a ! nat mid < h then absearch_bisect a (Some h) (mid + 1) j
         else absearch_bisect a (Some h) i mid)"
      using bisect_step[OF True, of a "Some h"] idx unfolding mid_def[symmetric]
      by (simp add: js_lt_def)
    show ?thesis
    proof (cases "a ! nat mid < h")
      case lt: True
      have below: "\<forall>k < nat (mid + 1). k < length a \<longrightarrow> a ! k < h"
      proof (intro allI impI)
        fix k assume "k < nat (mid + 1)" "k < length a"
        then have "k \<le> nat mid" using mid_in by auto
        then have "a ! k \<le> a ! nat mid" using srt mid_in by (auto simp: sorted_iff_nth_mono)
        then show "a ! k < h" using lt by simp
      qed
      have "\<exists>i'. absearch_bisect a (Some h) (mid + 1) j = Some i' \<and> 0 \<le> i' \<and> (\<forall>k < nat i'. k < length a \<longrightarrow> a ! k < h)"
        using less.hyps[of j "mid + 1"] mid_bounds mid_in less.prems below by auto
      then show ?thesis using lt step by simp
    next
      case ge: False
      have "\<exists>i'. absearch_bisect a (Some h) i mid = Some i' \<and> 0 \<le> i' \<and> (\<forall>k < nat i'. k < length a \<longrightarrow> a ! k < h)"
        using less.hyps[of mid i] mid_bounds mid_in less.prems by auto
      then show ?thesis using ge step by simp
    qed
  qed
qed

lemma scan_skip:
  "0 \<le> i \<Longrightarrow> i < int (length a) \<Longrightarrow> a ! nat i < h \<Longrightarrow>
     absearch_scan a (Some h) i = absearch_scan a (Some h) (i + 1)"
  by (subst absearch_scan.simps) (simp add: js_idx_def js_ge_def)

lemma scan_hit:
  "0 \<le> i \<Longrightarrow> i < int (length a) \<Longrightarrow> h \<le> a ! nat i \<Longrightarrow> absearch_scan a (Some h) i = i"
  by (subst absearch_scan.simps) (simp add: js_idx_def js_ge_def)

lemma scan_end:
  "\<not> i < int (length a) \<Longrightarrow> absearch_scan a key i = (if length a = 0 then - 1 else 0)"
  by (subst absearch_scan.simps) simp

lemma scan_found:
  "0 \<le> i \<Longrightarrow> nat i \<le> m \<Longrightarrow> m < length a \<Longrightarrow> a ! m \<ge> h \<Longrightarrow> (\<forall>k < m. a ! k < h) \<Longrightarrow>
     absearch_scan a (Some h) i = int m"
proof (induction "m - nat i" arbitrary: i)
  case 0
  then have "nat i = m" by simp
  then show ?case using 0 scan_hit[of i a h] by auto
next
  case (Suc d)
  then have lt: "nat i < m" by simp
  then have nge: "a ! nat i < h" using Suc.prems by simp
  have "absearch_scan a (Some h) (i + 1) = int m"
    using Suc.hyps(1)[of "i + 1"] Suc.hyps(2) Suc.prems lt by auto
  then show ?case using scan_skip[of i a h] Suc.prems lt nge by auto
qed

lemma scan_none:
  "0 \<le> i \<Longrightarrow> (\<forall>k < length a. a ! k < h) \<Longrightarrow>
     absearch_scan a (Some h) i = (if length a = 0 then - 1 else 0)"
proof (induction "length a - nat i" arbitrary: i)
  case 0
  then have "\<not> i < int (length a)" by simp
  then show ?case by (rule scan_end)
next
  case (Suc d)
  then have lt: "i < int (length a)" by simp
  then have nge: "a ! nat i < h" using Suc.prems by simp
  have "absearch_scan a (Some h) (i + 1) = (if length a = 0 then - 1 else 0)"
    using Suc.hyps(1)[of "i + 1"] Suc.hyps(2) Suc.prems lt by auto
  then show ?case using scan_skip[of i a h] Suc.prems lt nge by simp
qed

lemma absearch_found:
  assumes "sorted a" "length a \<le> 2 ^ 31" "m < length a" "h \<le> a ! m" "\<forall>k < m. a ! k < h"
  shows "absearch a (Some h) = Some (int m)"
proof -
  obtain i' where b: "absearch_bisect a (Some h) 0 (int (length a) - 1) = Some i'" "0 \<le> i'"
     "\<forall>k < nat i'. k < length a \<longrightarrow> a ! k < h"
    using bisect_ok[OF assms(1,2), of 0 "int (length a) - 1" h] by auto
  have "nat i' \<le> m"
  proof (rule ccontr)
    assume "\<not> nat i' \<le> m"
    then have "a ! m < h" using b(3) assms(3) by auto
    then show False using assms(4) by simp
  qed
  then show ?thesis using scan_found[OF b(2) _ assms(3,4,5)] b(1) by (simp add: absearch_def)
qed

lemma absearch_wrap:
  assumes "sorted a" "length a \<le> 2 ^ 31" "\<forall>x \<in> set a. x < h"
  shows "absearch a (Some h) = Some (if a = [] then - 1 else 0)"
proof -
  obtain i' where b: "absearch_bisect a (Some h) 0 (int (length a) - 1) = Some i'" "0 \<le> i'"
    using bisect_ok[OF assms(1,2), of 0 "int (length a) - 1" h] by auto
  show ?thesis using scan_none[OF b(2), of a h] assms(3) b(1) by (simp add: absearch_def)
qed

lemma absearch_in_range:
  assumes "sorted a" "length a \<le> 2 ^ 31" "a \<noteq> []"
  shows "\<exists>m < length a. absearch a (Some h) = Some (int m)"
proof (cases "\<exists>k < length a. h \<le> a ! k")
  case True
  define m where "m = (LEAST k. k < length a \<and> h \<le> a ! k)"
  have m: "m < length a \<and> h \<le> a ! m" unfolding m_def using True by (rule LeastI_ex)
  have least: "\<forall>k < m. a ! k < h"
  proof (intro allI impI)
    fix k assume km: "k < m"
    then have "\<not> (k < length a \<and> h \<le> a ! k)" unfolding m_def by (rule not_less_Least)
    then show "a ! k < h" using km m by auto
  qed
  show ?thesis using absearch_found[OF assms(1,2) _ _ least] m by blast
next
  case False
  then have "\<forall>x \<in> set a. x < h" by (force simp: in_set_conv_nth not_le)
  then show ?thesis using absearch_wrap[OF assms(1,2), of h] assms(3) by auto
qed

lemma absearch_small: "int (length a) - 1 \<le> gap \<Longrightarrow> absearch a key = Some (absearch_scan a key 0)"
  by (simp add: absearch_def bisect_stop)

text \<open>On the array of zeros the bisection for 1 never leaves its loop.\<close>

lemma zeros_length: "int (length zeros) = 2 ^ 32 - 1"
  by (simp only: zeros_def length_replicate) simp

lemma zeros_idx: "0 \<le> k \<Longrightarrow> k < 2 ^ 32 - 1 \<Longrightarrow> js_idx zeros k = Some 0"
proof -
  assume k: "0 \<le> k" "k < 2 ^ 32 - 1"
  then have "nat k < 2 ^ 32 - 1" by (simp add: nat_less_iff)
  then have "zeros ! nat k = 0" by (simp only: zeros_def nth_replicate)
  then show ?thesis using k by (simp add: js_idx_def zeros_length)
qed

lemma zeros_sorted: "sorted zeros"
  by (simp only: zeros_def sorted_replicate)

lemma cycle_next:
  assumes "on_cycle i"
  shows "0 \<le> ((i + (2 ^ 32 - 2)) mod 2 ^ 32) div 2"
    and "((i + (2 ^ 32 - 2)) mod 2 ^ 32) div 2 < 2 ^ 32 - 1"
    and "on_cycle (((i + (2 ^ 32 - 2)) mod 2 ^ 32) div 2 + 1)"
    and "gap < (2 ^ 32 - 2) - i"
proof -
  have top: "on_cycle (2 ^ 31)" unfolding on_cycle_def by (intro disjI2 exI[of _ 31]) simp
  consider "i = 0" | "i = 1" | m where "m \<le> 30" "i = 2 * 2 ^ m"
  proof -
    from assms consider "i = 0" | n where "n \<le> 31" "i = 2 ^ n" by (auto simp: on_cycle_def)
    then show ?thesis
    proof cases
      case 1 then show ?thesis using that by simp
    next
      case 2
      show ?thesis
      proof (cases n)
        case 0 then show ?thesis using 2 that by simp
      next
        case (Suc m) then show ?thesis using 2 that(3)[of m] by simp
      qed
    qed
  qed
  then have "0 \<le> ((i + (2 ^ 32 - 2)) mod 2 ^ 32) div 2
      \<and> ((i + (2 ^ 32 - 2)) mod 2 ^ 32) div 2 < 2 ^ 32 - 1
      \<and> on_cycle (((i + (2 ^ 32 - 2)) mod 2 ^ 32) div 2 + 1)
      \<and> gap < (2 ^ 32 - 2) - i"
  proof cases
    case 1
    then show ?thesis using top by (simp add: gap_def)
  next
    case 2
    then show ?thesis using top by (simp add: gap_def)
  next
    case (3 m)
    have le: "(2::int) ^ m \<le> 2 ^ 30" using 3(1) by (intro power_increasing) simp_all
    have ge: "(1::int) \<le> 2 ^ m" by simp
    have "(i + (2 ^ 32 - 2)) mod 2 ^ 32 = 2 * 2 ^ m - 2"
    proof -
      have "i + (2 ^ 32 - 2) = (2 * 2 ^ m - 2) + 2 ^ 32" using 3(2) by simp
      then have "(i + (2 ^ 32 - 2)) mod 2 ^ 32 = (2 * 2 ^ m - 2) mod 2 ^ 32"
        by (simp only: mod_add_self2)
      also have "\<dots> = 2 * 2 ^ m - 2" using le ge by (intro mod_pos_pos_trivial) simp_all
      finally show ?thesis .
    qed
    moreover have "(2 * 2 ^ m - 2 :: int) div 2 = 2 ^ m - 1" by simp
    moreover have "on_cycle (2 ^ m)" unfolding on_cycle_def using 3(1) by (intro disjI2 exI[of _ m]) simp
    ultimately show ?thesis using le ge 3(2) by (simp add: gap_def)
  qed
  then show "0 \<le> ((i + (2 ^ 32 - 2)) mod 2 ^ 32) div 2"
    and "((i + (2 ^ 32 - 2)) mod 2 ^ 32) div 2 < 2 ^ 32 - 1"
    and "on_cycle (((i + (2 ^ 32 - 2)) mod 2 ^ 32) div 2 + 1)"
    and "gap < (2 ^ 32 - 2) - i"
    by simp_all
qed

lemma bisect_cycle:
  assumes "absearch_bisect a key i j = Some y"
  shows "\<not> (a = zeros \<and> key = Some 1 \<and> j = 2 ^ 32 - 2 \<and> on_cycle i)"
proof (rule absearch_bisect.raw_induct[OF _ assms])
  fix f :: "int list \<Rightarrow> jsnum \<Rightarrow> int \<Rightarrow> int \<Rightarrow> int option" and a key i j y
  assume IH: "\<And>a key i j y. f a key i j = Some y \<Longrightarrow>
      \<not> (a = zeros \<and> key = Some 1 \<and> j = 2 ^ 32 - 2 \<and> on_cycle i)"
  assume eq: "(if gap < j - i
      then let mid = (i + j) mod 2 ^ 32 div 2
           in if js_lt (js_idx a mid) key then f a key (mid + 1) j else f a key i mid
      else Some i) = Some y"
  show "\<not> (a = zeros \<and> key = Some 1 \<and> j = 2 ^ 32 - 2 \<and> on_cycle i)"
  proof
    assume c: "a = zeros \<and> key = Some 1 \<and> j = 2 ^ 32 - 2 \<and> on_cycle i"
    define mid where "mid = ((i + (2 ^ 32 - 2)) mod 2 ^ 32) div 2"
    have n: "0 \<le> mid" "mid < 2 ^ 32 - 1" "on_cycle (mid + 1)" "gap < (2 ^ 32 - 2) - i"
      unfolding mid_def using cycle_next[of i] c by simp_all
    have lt: "js_lt (js_idx zeros mid) (Some 1)"
      using zeros_idx[OF n(1,2)] by (simp add: js_lt_def)
    have "f zeros (Some 1) (mid + 1) (2 ^ 32 - 2) = Some y"
      using eq c n(4) lt unfolding Let_def mid_def by simp
    then show False using IH[of zeros "Some 1" "mid + 1" "2 ^ 32 - 2" y] n(3) by simp
  qed
qed

section \<open>The hash is the rolling scheme on 32-bit words\<close>

lemma hi_mask: "(0xF000000 :: 32 word) = push_bit 24 (mask 4)"
  by (simp add: mask_eq_exp_minus_1)

lemma sint_small: "uint (x :: 32 word) < 2 ^ 31 \<Longrightarrow> sint x = uint x"
proof -
  have "- (2 ^ 31) \<le> uint x" by (rule order_trans[of _ 0]) simp_all
  then show "uint x < 2 ^ 31 \<Longrightarrow> sint x = uint x"
    using signed_take_bit_int_eq_self[of 31 "uint x"] by (simp add: sint_uint)
qed

lemma clear_bits: "(w :: 32 word) AND 0xF000000 = 0 \<Longrightarrow> 24 \<le> n \<Longrightarrow> n < 28 \<Longrightarrow> \<not> bit w n"
proof
  assume a: "w AND 0xF000000 = 0" "24 \<le> n" "n < 28" "bit w n"
  have "bit (w AND push_bit 24 (mask 4)) n" using a(2-) by (auto simp: bit_simps)
  then show False using a(1) by (simp add: hi_mask)
qed

lemma shl_small: 
  assumes "(w :: 32 word) AND 0xF000000 = 0" shows "uint (push_bit 4 w) < 2 ^ 28"
proof -
  have "push_bit 4 w = take_bit 28 (push_bit 4 w)"
  proof (rule bit_word_eqI)
    fix n assume n: "n < LENGTH(32)"
    have "28 \<le> n \<Longrightarrow> \<not> bit w (n - 4)"
      using clear_bits[OF assms, of "n - 4"] n by auto
    then have "bit w (n - 4) \<Longrightarrow> n < 28" by (cases "28 \<le> n") auto
    then show "bit (push_bit 4 w) n = bit (take_bit 28 (push_bit 4 w)) n"
      by (auto simp: bit_simps)
  qed
  then have "uint (push_bit 4 w) = take_bit 28 (uint (push_bit 4 w))"
    by (metis unsigned_take_bit_eq)
  then show ?thesis by (metis take_bit_int_less_exp)
qed

lemma fold_clears: "(((w1 :: 32 word) XOR (w1 AND 0xF000000)) XOR drop_bit 24 (w1 AND 0xF000000)) AND 0xF000000 = 0"
  unfolding hi_mask by (rule bit_word_eqI) (auto simp: bit_simps)


lemma uint_below: "uint (x :: 32 word) < 2 ^ 29 \<Longrightarrow> sint x = uint x"
  by (rule sint_small) simp

lemma xor_small:
  "uint (x :: 32 word) < 2 ^ 29 \<Longrightarrow> uint y < 2 ^ 29 \<Longrightarrow> uint (x XOR y) < 2 ^ 29"
  using XOR_upper[of "uint x" 29 "uint y"] by (simp add: unsigned_xor_eq)

lemma and_small: "uint (x :: 32 word) < 2 ^ 29 \<Longrightarrow> uint (x AND y) < 2 ^ 29"
proof -
  have "uint (x AND y) \<le> uint x" by (simp add: unsigned_and_eq AND_upper1)
  then show "uint x < 2 ^ 29 \<Longrightarrow> uint (x AND y) < 2 ^ 29" by simp
qed

lemma drop_small: "uint (x :: 32 word) < 2 ^ 29 \<Longrightarrow> uint (drop_bit 24 x) < 2 ^ 29"
proof -
  have le: "uint x div 2 ^ 24 \<le> uint x div 1"
    by (rule zdiv_mono2) simp_all
  have tb: "take_bit 32 (uint x) = uint x"
    by (rule take_bit_int_eq_self) (use uint_lt2p[of x] in simp_all)
  have "uint (drop_bit 24 x) = drop_bit 24 (take_bit LENGTH(32) (uint x))"
    by (rule unsigned_drop_bit_eq)
  also have "\<dots> = drop_bit 24 (uint x)" using tb by simp
  also have "\<dots> = uint x div 2 ^ 24" by (rule drop_bit_eq_div)
  finally have "uint (drop_bit 24 x) \<le> uint x" using le by simp
  then show "uint x < 2 ^ 29 \<Longrightarrow> uint (drop_bit 24 x) < 2 ^ 29" by simp
qed

lemma step_refine:
  fixes w :: "32 word" and c :: "16 word"
  assumes inv: "w AND 0xF000000 = 0"
  shows "(let h1 = js_shl (uint w) 4 + uint c; g = js_and h1 0xf000000
          in if g \<noteq> 0 then js_xor (js_xor h1 g) (js_ushr g 24) else h1) = uint (rolling_step w c)"
    and "rolling_step w c AND 0xF000000 = 0"
proof -
  define w1 where "w1 = push_bit 4 w + (ucast c :: 32 word)"
  define top where "top = w1 AND 0xF000000"
  have shl: "js_shl (uint w) 4 = uint (push_bit 4 w)"
    using shl_small[OF inv] by (simp add: js_shl_def sint_small)
  have c16: "uint c < 2 ^ 16" using uint_lt2p[of c] by simp
  have uc: "uint (ucast c :: 32 word) = uint c" by (simp add: uint_up_ucast is_up)
  have sum: "uint (push_bit 4 w) + uint (ucast c :: 32 word) < 2 ^ 29"
    using shl_small[OF inv] c16 uc by simp
  then have "uint (push_bit 4 w) + uint (ucast c :: 32 word) < 2 ^ LENGTH(32)" by simp
  then have w1: "uint w1 = uint (push_bit 4 w) + uint c"
    unfolding w1_def using uc by (simp add: uint_add_lem[THEN iffD1])
  have w1_small: "uint w1 < 2 ^ 29" using sum w1 uc by simp
  have h1: "js_shl (uint w) 4 + uint c = uint w1" using shl w1 by simp
  have g: "js_and (uint w1) 0xf000000 = uint top"
    using and_small[OF w1_small, of "0xF000000"] by (simp add: js_and_def top_def uint_below)
  have gz: "uint top \<noteq> 0 \<longleftrightarrow> top \<noteq> 0" by (simp add: uint_0_iff)
  have top_small: "uint top < 2 ^ 29" unfolding top_def by (rule and_small[OF w1_small])
  have x1: "js_xor (uint w1) (uint top) = uint (w1 XOR top)"
    using xor_small[OF w1_small top_small] by (simp add: js_xor_def uint_below)
  have sh: "js_ushr (uint top) 24 = uint (drop_bit 24 top)" by (simp add: js_ushr_def)
  have x2: "js_xor (uint (w1 XOR top)) (uint (drop_bit 24 top)) = uint ((w1 XOR top) XOR drop_bit 24 top)"
    using xor_small[OF xor_small[OF w1_small top_small] drop_small[OF top_small]]
    by (simp add: js_xor_def uint_below)
  show "(let h1 = js_shl (uint w) 4 + uint c; g = js_and h1 0xf000000
          in if g \<noteq> 0 then js_xor (js_xor h1 g) (js_ushr g 24) else h1) = uint (rolling_step w c)"
    unfolding Let_def h1 g x1 sh x2 gz rolling_step_def
    by (simp add: w1_def top_def)
  show "rolling_step w c AND 0xF000000 = 0"
  proof (cases "top = 0")
    case True
    then show ?thesis by (simp add: rolling_step_def Let_def w1_def[symmetric] top_def[symmetric])
  next
    case False
    then show ?thesis
      unfolding rolling_step_def Let_def w1_def[symmetric] top_def[symmetric]
      using fold_clears[of w1] by (simp add: top_def)
  qed
qed

lemma loop_refine:
  "(w :: 32 word) AND 0xF000000 = 0 \<Longrightarrow> pjwHash_loop (uint w) s = uint (foldl rolling_step w s)"
proof (induction s arbitrary: w)
  case Nil
  then show ?case by simp
next
  case (Cons c s)
  have "pjwHash_loop (uint w) (c # s) = pjwHash_loop (uint (rolling_step w c)) s"
    using step_refine(1)[OF Cons.prems, of c] by (simp add: Let_def)
  also have "\<dots> = uint (foldl rolling_step (rolling_step w c) s)"
    by (rule Cons.IH) (rule step_refine(2)[OF Cons.prems])
  finally show ?case by simp
qed

section \<open>Adding: the allocator and the dictionary update\<close>

lemma copy_id: "copy xs = xs"
  by (simp add: copy_def map_nth)

lemma loop_length:
  "length (fst (makeControlPoints_loop km draws n points attemptCount pos)) = max n (length points)"
proof (induction km draws n points attemptCount pos rule: makeControlPoints_loop.induct)
  case (1 km draws n points attemptCount pos)
  show ?case
  proof (cases "length points < n")
    case True
    obtain key ac' pos' where d: "draw_key km points draws attemptCount pos = (key, ac', pos')"
      by (cases "draw_key km points draws attemptCount pos") auto
    show ?thesis
      using True d "1.IH"[OF True d[symmetric] refl]
      by (subst makeControlPoints_loop.simps) (simp add: max_def)
  next
    case False
    then show ?thesis by (subst makeControlPoints_loop.simps) (simp add: max_def)
  qed
qed

lemma loop_one:
  "makeControlPoints_loop km draws (Suc 0) [] 0 0 =
     ([fst (draw_key km [] draws 0 0)], snd (draw_key km [] draws 0 0))"
proof -
  obtain key ac pos where d: "draw_key km [] draws 0 0 = (key, ac, pos)"
    by (cases "draw_key km [] draws 0 0") auto
  have "makeControlPoints_loop km draws (Suc 0) [] 0 0 = makeControlPoints_loop km draws (Suc 0) [key] ac pos"
    using d by (subst makeControlPoints_loop.simps) simp
  also have "\<dots> = ([key], ac, pos)"
    by (subst makeControlPoints_loop.simps) simp
  finally show ?thesis using d by simp
qed

lemma map_points_one: "map_points km [p] node 1 = km(Some p \<mapsto> node)"
  by (simp add: map_points_def js_idx_def)

lemma map_points_take:
  "k \<le> length ps \<Longrightarrow>
   foldl (\<lambda>m i. m(js_idx ps (int i) \<mapsto> node)) km [0..<k] q
     = (if q \<in> Some ` set (take k ps) then Some node else km q)"
proof (induction k)
  case 0
  then show ?case by simp
next
  case (Suc k)
  then have "js_idx ps (int k) = Some (ps ! k)" by (simp add: js_idx_def)
  then show ?case using Suc by (auto simp: take_Suc_conv_app_nth)
qed

lemma map_points_full:
  "map_points km ps node (int (length ps)) q = (if q \<in> Some ` set ps then Some node else km q)"
  using map_points_take[of "length ps" ps node km q] by (simp add: map_points_def)

lemma ran_upd_subset: "ran (m(k \<mapsto> v)) \<subseteq> insert v (ran m)"
  by (auto simp: ran_def)

lemma ran_map_points: "ran (map_points km ps node n) \<subseteq> insert node (ran km)"
proof -
  have "ran (foldl (\<lambda>m i. m(js_idx ps (int i) \<mapsto> node)) km xs) \<subseteq> insert node (ran km)" for xs
  proof (induction xs rule: rev_induct)
    case Nil
    then show ?case by auto
  next
    case (snoc x xs)
    have "ran (foldl (\<lambda>m i. m(js_idx ps (int i) \<mapsto> node)) km (xs @ [x]))
        \<subseteq> insert node (ran (foldl (\<lambda>m i. m(js_idx ps (int i) \<mapsto> node)) km xs))"
      by (simp only: foldl_append foldl_Cons foldl_Nil ran_upd_subset)
    then show ?case using snoc by blast
  qed
  then show ?thesis by (simp add: map_points_def)
qed

lemma add_effect:
  assumes "add r node weight explicit draws = Inr r'"
  shows "\<exists>points. r' = r\<lparr>nodes := nodes r @ [node], nodeKeys := nodeKeys r @ [points],
            keyMap := map_points (keyMap r) points node (weight_of weight), keys := None,
            keyCount := keyCount r + weight_of weight, nodeCount := nodeCount r + 1\<rparr>
          \<and> (case explicit of Some ps \<Rightarrow> points = ps | None \<Rightarrow> weight_of weight = int (length points))"
proof (cases explicit)
  case (Some ps)
  have "r' = r\<lparr>nodes := nodes r @ [node], nodeKeys := nodeKeys r @ [ps],
            keyMap := map_points (keyMap r) ps node (weight_of weight), keys := None,
            keyCount := keyCount r + weight_of weight, nodeCount := nodeCount r + 1\<rparr>"
    using assms Some by (simp add: add_def Let_def copy_id)
  then show ?thesis using Some by (intro exI[of _ ps]) simp
next
  case None
  obtain pts where mk: "makeControlPoints r (weight_of weight) draws = Inr pts"
    using assms None by (cases "makeControlPoints r (weight_of weight) draws") (simp_all add: add_def Let_def)
  have len: "weight_of weight = int (length pts)"
    using mk by (auto simp: makeControlPoints_def loop_length split: if_splits)
  have "r' = r\<lparr>nodes := nodes r @ [node], nodeKeys := nodeKeys r @ [pts],
            keyMap := map_points (keyMap r) pts node (weight_of weight), keys := None,
            keyCount := keyCount r + weight_of weight, nodeCount := nodeCount r + 1\<rparr>"
    using assms None mk by (simp add: add_def Let_def)
  then show ?thesis using None len by (intro exI[of _ pts]) simp
qed

section \<open>Removing: swap with the last entry and shrink\<close>

lemma indexOf_neg: "indexOf xs x < 0 \<longleftrightarrow> x \<notin> set xs"
  by (induction xs) (auto simp: Let_def)

lemma indexOf_ge: "- 1 \<le> indexOf xs x"
  by (induction xs) (auto simp: Let_def)

lemma indexOf_hit: "0 \<le> indexOf xs x \<Longrightarrow> nat (indexOf xs x) < length xs \<and> xs ! nat (indexOf xs x) = x"
proof (induction xs)
  case Nil
  then show ?case by simp
next
  case (Cons y ys)
  show ?case
  proof (cases "y = x")
    case True
    then show ?thesis by simp
  next
    case False
    then have "0 \<le> indexOf ys x" using Cons.prems by (auto simp: Let_def split: if_splits)
    then show ?thesis using Cons.IH False by (auto simp: Let_def nat_add_distrib)
  qed
qed

lemma swap_remove_mset:
  "ix < length xs \<Longrightarrow> add_mset (xs ! ix) (mset (butlast (xs[ix := last xs]))) = mset xs"
proof (cases xs rule: rev_cases)
  case Nil
  then show "ix < length xs \<Longrightarrow> ?thesis" by simp
next
  case (snoc ys l)
  assume ix: "ix < length xs"
  show ?thesis
  proof (cases "ix = length ys")
    case True
    then show ?thesis using snoc by simp
  next
    case False
    then have lt: "ix < length ys" using ix snoc by simp
    then have "ys ! ix \<in># mset ys" by (rule nth_mem_mset)
    then show ?thesis using snoc lt by (simp add: list_update_append nth_append mset_update)
  qed
qed

lemma swap_remove_zip:
  assumes "length ns = length ks" and "ix < length ns"
  shows "zip (butlast (ns[ix := last ns])) (butlast (ks[ix := last ks]))
         = butlast ((zip ns ks)[ix := last (zip ns ks)])"
proof -
  have ne: "ns \<noteq> []" "ks \<noteq> []" using assms by auto
  have "last (zip ns ks) = (last ns, last ks)" using assms ne by (simp add: last_zip)
  then have "butlast ((zip ns ks)[ix := last (zip ns ks)])
      = butlast (zip (ns[ix := last ns]) (ks[ix := last ks]))"
    by (simp only: zip_update)
  also have "\<dots> = zip (butlast (ns[ix := last ns])) (butlast (ks[ix := last ks]))"
    using assms by (simp add: butlast_conv_take take_zip del: take_update_swap)
  finally show ?thesis by simp
qed


lemma remove_stop: "indexOf (nodes r) node < 0 \<Longrightarrow> remove r node = Inr r"
  by (subst remove.simps) (simp add: Let_def)

lemma remove_step:
  "0 \<le> indexOf (nodes r) node \<Longrightarrow> nat (indexOf (nodes r) node) < length (nodeKeys r) \<Longrightarrow>
   remove r node =
     remove (r\<lparr>nodes := butlast ((nodes r)[nat (indexOf (nodes r) node) := last (nodes r)]),
               nodeKeys := butlast ((nodeKeys r)[nat (indexOf (nodes r) node) := last (nodeKeys r)]),
               keys := None,
               keyCount := keyCount r - int (length (nodeKeys r ! nat (indexOf (nodes r) node))),
               nodeCount := nodeCount r - 1\<rparr>) node"
proof -
  assume a: "0 \<le> indexOf (nodes r) node" "nat (indexOf (nodes r) node) < length (nodeKeys r)"
  then have "indexOf (nodes r) node < int (length (nodeKeys r))" by linarith
  then show ?thesis using a by (subst remove.simps) (simp add: Let_def js_idx_def)
qed

lemma remove_spec:
  assumes "length (nodes r) = length (nodeKeys r)"
  shows "\<exists>r'. remove r node = Inr r' \<and> length (nodes r') = length (nodeKeys r') \<and>
     mset (registrations r') = filter_mset (\<lambda>p. fst p \<noteq> node) (mset (registrations r)) \<and>
     keyCount r' = keyCount r - (\<Sum>p\<in>#filter_mset (\<lambda>p. fst p = node) (mset (registrations r)). int (length (snd p))) \<and>
     nodeCount r' = nodeCount r - int (size (filter_mset (\<lambda>p. fst p = node) (mset (registrations r)))) \<and>
     keyMap r' = keyMap r \<and> range_cap r' = range_cap r \<and>
     (node \<in> set (nodes r) \<longrightarrow> keys r' = None) \<and> (node \<notin> set (nodes r) \<longrightarrow> r' = r)"
  using assms
proof (induction r node rule: remove.induct)
  case (1 r node)
  define ix where "ix = indexOf (nodes r) node"
  show ?case
  proof (cases "0 \<le> ix")
    case False
    then have notin: "node \<notin> set (nodes r)" using indexOf_neg[of "nodes r" node] by (simp add: ix_def)
    have stop: "remove r node = Inr r" using False by (simp add: remove_stop ix_def)
    have none: "\<And>p. p \<in># mset (registrations r) \<Longrightarrow> fst p \<noteq> node"
      using notin by (auto simp: registrations_def dest: set_zip_leftD)
    have keep: "filter_mset (\<lambda>p. fst p \<noteq> node) (mset (registrations r)) = mset (registrations r)"
      using none by (simp add: filter_mset_eq_conv)
    have drop: "filter_mset (\<lambda>p. fst p = node) (mset (registrations r)) = {#}"
      using none by auto
    show ?thesis unfolding stop keep drop using notin "1.prems" by simp
  next
    case True
    define k where "k = nat ix"
    have hit: "k < length (nodes r)" "nodes r ! k = node"
      using indexOf_hit[of "nodes r" node] True by (simp_all add: ix_def k_def)
    have kk: "k < length (nodeKeys r)" using hit "1.prems" by simp
    define r2 where "r2 = r\<lparr>nodes := butlast ((nodes r)[k := last (nodes r)]),
               nodeKeys := butlast ((nodeKeys r)[k := last (nodeKeys r)]),
               keys := None,
               keyCount := keyCount r - int (length (nodeKeys r ! k)),
               nodeCount := nodeCount r - 1\<rparr>"
    have step: "remove r node = remove r2 node"
      using remove_step[of r node] True kk by (simp add: ix_def k_def r2_def)
    have idx: "js_idx (nodeKeys r) ix = Some (nodeKeys r ! k)"
      using True kk by (simp add: js_idx_def k_def)
    have len2: "length (nodes r2) = length (nodeKeys r2)" using "1.prems" by (simp add: r2_def)
    have regs2: "registrations r2 = butlast ((registrations r)[k := last (registrations r)])"
      using swap_remove_zip[OF "1.prems" hit(1)] by (simp add: registrations_def r2_def)
    have "k < length (registrations r)" using hit "1.prems" by (simp add: registrations_def)
    then have "add_mset (registrations r ! k) (mset (registrations r2)) = mset (registrations r)"
      unfolding regs2 by (rule swap_remove_mset)
    moreover have "registrations r ! k = (node, nodeKeys r ! k)"
      using hit kk by (simp add: registrations_def)
    ultimately have split: "mset (registrations r) = add_mset (node, nodeKeys r ! k) (mset (registrations r2))"
      by simp
    have mem: "node \<in> set (nodes r)" using hit by (metis nth_mem)
    obtain r' where r': "remove r2 node = Inr r'" "length (nodes r') = length (nodeKeys r')"
       "mset (registrations r') = filter_mset (\<lambda>p. fst p \<noteq> node) (mset (registrations r2))"
       "keyCount r' = keyCount r2 - (\<Sum>p\<in>#filter_mset (\<lambda>p. fst p = node) (mset (registrations r2)). int (length (snd p)))"
       "nodeCount r' = nodeCount r2 - int (size (filter_mset (\<lambda>p. fst p = node) (mset (registrations r2))))"
       "keyMap r' = keyMap r2" "range_cap r' = range_cap r2"
       "node \<in> set (nodes r2) \<longrightarrow> keys r' = None" "node \<notin> set (nodes r2) \<longrightarrow> r' = r2"
      using "1.IH"[OF ix_def True idx, folded k_def, folded r2_def, OF len2] by blast
    have cache: "keys r' = None" using r'(8,9) by (cases "node \<in> set (nodes r2)") (auto simp: r2_def)
    show ?thesis
      using step r'(1-7) cache mem split by (simp add: r2_def)
  qed
qed

lemma remove_frame: "remove r node = Inr r' \<Longrightarrow> keyMap r' = keyMap r \<and> range_cap r' = range_cap r"
proof (induction r node rule: remove.induct)
  case (1 r node)
  show ?case
  proof (cases "0 \<le> indexOf (nodes r) node")
    case False
    then show ?thesis using "1.prems" by (simp add: remove_stop)
  next
    case True
    show ?thesis
    proof (cases "js_idx (nodeKeys r) (indexOf (nodes r) node)")
      case None
      then show ?thesis using "1.prems" True by (subst (asm) remove.simps) (simp add: Let_def)
    next
      case (Some ks)
      have "remove (r\<lparr>nodes := butlast ((nodes r)[nat (indexOf (nodes r) node) := last (nodes r)]),
                       nodeKeys := butlast ((nodeKeys r)[nat (indexOf (nodes r) node) := last (nodeKeys r)]),
                       keys := None,
                       keyCount := keyCount r - int (length ks),
                       nodeCount := nodeCount r - 1\<rparr>) node = Inr r'"
        using "1.prems" True Some by (subst (asm) remove.simps) (simp add: Let_def)
      then show ?thesis using "1.IH"[OF refl True Some] by simp
    qed
  qed
qed

section \<open>What every call keeps\<close>

lemma add_inv:
  assumes "ring_inv r" "add_matches (Add node weight explicit draws)"
    and "add r node weight explicit draws = Inr r'"
  shows "ring_inv r'"
proof -
  obtain points where p: "r' = r\<lparr>nodes := nodes r @ [node], nodeKeys := nodeKeys r @ [points],
            keyMap := map_points (keyMap r) points node (weight_of weight), keys := None,
            keyCount := keyCount r + weight_of weight, nodeCount := nodeCount r + 1\<rparr>"
     and c: "case explicit of Some ps \<Rightarrow> points = ps | None \<Rightarrow> weight_of weight = int (length points)"
    using add_effect[OF assms(3)] by blast
  have n: "weight_of weight = int (length points)"
    using c assms(2) by (cases explicit) auto
  show ?thesis using assms(1) unfolding ring_inv_def p n
    by (auto simp: map_points_full)
qed

lemma nodeKeys_regs: "length (nodes r) = length (nodeKeys r) \<Longrightarrow> nodeKeys r = map snd (registrations r)"
  by (simp add: registrations_def)

lemma length_concat_mset: "int (length (concat xs)) = (\<Sum>x\<in>#mset xs. int (length x))"
  by (induction xs) auto

lemma sum_mset_split:
  "(\<Sum>p\<in>#M. (f p :: int)) = (\<Sum>p\<in>#filter_mset P M. f p) + (\<Sum>p\<in>#filter_mset (\<lambda>p. \<not> P p) M. f p)"
  by (induction M) auto

lemma remove_inv:
  assumes "ring_inv r" "remove r node = Inr r'"
  shows "ring_inv r'"
proof -
  have len: "length (nodes r) = length (nodeKeys r)" using assms(1) by (simp add: ring_inv_def)
  obtain r2 where r2: "remove r node = Inr r2" "length (nodes r2) = length (nodeKeys r2)"
     "mset (registrations r2) = filter_mset (\<lambda>p. fst p \<noteq> node) (mset (registrations r))"
     "keyCount r2 = keyCount r - (\<Sum>p\<in>#filter_mset (\<lambda>p. fst p = node) (mset (registrations r)). int (length (snd p)))"
     "keyMap r2 = keyMap r" "range_cap r2 = range_cap r"
     "node \<in> set (nodes r) \<longrightarrow> keys r2 = None" "node \<notin> set (nodes r) \<longrightarrow> r2 = r"
    using remove_spec[OF len, of node] by blast
  have eq: "r2 = r'" using r2(1) assms(2) by simp
  show ?thesis
  proof (cases "node \<in> set (nodes r)")
    case False
    then show ?thesis using r2(8) eq assms(1) by simp
  next
    case True
    let ?M = "mset (registrations r)"
    have all: "int (length (concat (nodeKeys r))) = (\<Sum>p\<in>#?M. int (length (snd p)))"
      by (simp add: nodeKeys_regs[OF len] length_concat_mset image_mset.compositionality comp_def)
    have kept: "int (length (concat (nodeKeys r2))) = (\<Sum>p\<in>#filter_mset (\<lambda>p. fst p \<noteq> node) ?M. int (length (snd p)))"
      by (simp add: nodeKeys_regs[OF r2(2)] length_concat_mset image_mset.compositionality comp_def r2(3)[symmetric])
    have "(\<Sum>p\<in>#?M. int (length (snd p))) =
        (\<Sum>p\<in>#filter_mset (\<lambda>p. fst p = node) ?M. int (length (snd p))) +
        (\<Sum>p\<in>#filter_mset (\<lambda>p. fst p \<noteq> node) ?M. int (length (snd p)))"
      by (rule sum_mset_split)
    then have cnt: "keyCount r2 = int (length (concat (nodeKeys r2)))"
      using r2(4) all kept assms(1) by (simp add: ring_inv_def)
    have "set_mset (mset (nodeKeys r2)) \<subseteq> set_mset (mset (nodeKeys r))"
      unfolding nodeKeys_regs[OF r2(2)] nodeKeys_regs[OF len] mset_map r2(3) by auto
    then have sub: "set (concat (nodeKeys r2)) \<subseteq> set (concat (nodeKeys r))" by auto
    show ?thesis
      using True r2(2,5,6,7) cnt sub assms(1) unfolding eq[symmetric] ring_inv_def by auto
  qed
qed

lemma get_inv:
  assumes "ring_inv r" "get r name = Some (res, r')"
  shows "ring_inv r'"
proof -
  have "r' = r \<or> r' = r\<lparr>keys := Some (sort (concat (nodeKeys r)))\<rparr>"
    using assms(2) by (auto simp: get_def buildKeys_def Let_def split: option.splits if_splits)
  then show ?thesis using assms(1) by (auto simp: ring_inv_def)
qed

lemma step_inv: "ring_inv r \<Longrightarrow> add_matches x \<Longrightarrow> step r x = Some r' \<Longrightarrow> ring_inv r'"
proof (cases x)
  case (Add node weight explicit draws)
  assume "ring_inv r" "add_matches x" "step r x = Some r'"
  then show ?thesis using Add add_inv[of r node weight explicit draws r']
    by (auto split: sum.splits)
next
  case (Remove node)
  assume "ring_inv r" "add_matches x" "step r x = Some r'"
  then show ?thesis using Remove remove_inv[of r node r'] by (auto split: sum.splits)
next
  case (Get name)
  assume "ring_inv r" "add_matches x" "step r x = Some r'"
  then show ?thesis using Get get_inv[of r name _ r'] by auto
qed

lemma run_inv: "ring_inv r \<Longrightarrow> list_all add_matches ops \<Longrightarrow> run r ops = Some r' \<Longrightarrow> ring_inv r'"
proof (induction ops arbitrary: r)
  case Nil
  then show ?case by simp
next
  case (Cons x xs)
  then obtain r1 where r1: "step r x = Some r1" "run r1 xs = Some r'"
    by (auto split: option.splits)
  have "ring_inv r1" using step_inv[OF Cons.prems(1) _ r1(1)] Cons.prems(2) by simp
  then show ?case using Cons.IH[OF _ _ r1(2)] Cons.prems(2) by simp
qed

lemma init_inv: "ring_inv (ConsistentHash range_opt)"
  by (simp add: ring_inv_def ConsistentHash_def split: option.splits)

lemma get_frame: "get r name = Some (res, r') \<Longrightarrow> keyMap r' = keyMap r"
  by (auto simp: get_def buildKeys_def Let_def split: option.splits if_splits)

lemma step_ran: "step r x = Some r' \<Longrightarrow> ran (keyMap r') \<subseteq> ran (keyMap r) \<union> set (added_nodes [x])"
proof (cases x)
  case (Add node weight explicit draws)
  assume "step r x = Some r'"
  then have "add r node weight explicit draws = Inr r'" using Add by (auto split: sum.splits)
  then obtain points where "keyMap r' = map_points (keyMap r) points node (weight_of weight)"
    using add_effect[of r node weight explicit draws r'] by auto
  then show ?thesis using ran_map_points[of "keyMap r" points node "weight_of weight"] Add by auto
next
  case (Remove node)
  assume "step r x = Some r'"
  then show ?thesis using Remove remove_frame[of r node r'] by (auto split: sum.splits)
next
  case (Get name)
  assume "step r x = Some r'"
  then show ?thesis using Get get_frame[of r name _ r'] by auto
qed

lemma added_nodes_Cons: "set (added_nodes (x # xs)) = set (added_nodes [x]) \<union> set (added_nodes xs)"
  by (cases x) auto

lemma run_ran: "run r ops = Some r' \<Longrightarrow> ran (keyMap r') \<subseteq> ran (keyMap r) \<union> set (added_nodes ops)"
proof (induction ops arbitrary: r)
  case Nil
  then show ?case by simp
next
  case (Cons x xs)
  then obtain r1 where r1: "step r x = Some r1" "run r1 xs = Some r'"
    by (auto split: option.splits)
  show ?case using step_ran[OF r1(1)] Cons.IH[OF r1(2)] unfolding added_nodes_Cons[of x xs] by blast
qed

lemma get_null: "keyCount r = 0 \<Longrightarrow> \<exists>r'. get r name = Some (JNull, r')"
  by (cases "keys r") (simp_all add: get_def buildKeys_def Let_def)

lemma get_hit:
  assumes "ring_inv r" "keyCount r \<noteq> 0" "length (concat (nodeKeys r)) \<le> 2 ^ 31"
  shows "\<exists>p x r'. p \<in> set (concat (nodeKeys r)) \<and> keyMap r (Some p) = Some x \<and>
           get r name = Some (JNode x, r')"
proof -
  define ks where "ks = sort (concat (nodeKeys r))"
  define r1 where "r1 = (case keys r of None \<Rightarrow> r\<lparr>keys := Some ks\<rparr> | Some c \<Rightarrow> r)"
  have pre: "(case keys r of None \<Rightarrow> buildKeys r | Some c \<Rightarrow> (c, r)) = (ks, r1)"
    using assms(1) by (auto simp: ring_inv_def buildKeys_def ks_def r1_def Let_def split: option.splits)
  have r1: "keyCount r1 = keyCount r" "keyMap r1 = keyMap r" "range_cap r1 = range_cap r"
    by (simp_all add: r1_def split: option.splits)
  have "int (length ks) = keyCount r" using assms(1) by (simp add: ring_inv_def ks_def)
  then have ne: "ks \<noteq> []" using assms(2) by auto
  have srt: "sorted ks" by (simp add: ks_def)
  have len: "length ks \<le> 2 ^ 31" using assms(3) by (simp add: ks_def)
  obtain hv where hv: "js_rem (pjwHash name) (range_cap r) = Some hv"
    using assms(1) by (simp add: ring_inv_def js_rem_def)
  obtain m where m: "m < length ks" "absearch ks (Some hv) = Some (int m)"
    using absearch_in_range[OF srt len ne, of hv] by blast
  have idx: "js_idx ks (int m) = Some (ks ! m)" using m(1) by (simp add: js_idx_def)
  have mem: "ks ! m \<in> set (concat (nodeKeys r))"
    using m(1) nth_mem[of m ks] by (simp add: ks_def)
  then obtain x where x: "keyMap r (Some (ks ! m)) = Some x"
    using assms(1) by (auto simp: ring_inv_def)
  have "get r name = Some (JNode x, r1)"
    unfolding get_def pre using assms(2) r1 hv m(2) idx x by (simp add: Let_def)
  then show ?thesis using mem x by blast
qed

lemma step_range: "step r x = Some r' \<Longrightarrow> range_cap r' = range_cap r"
proof (cases x)
  case (Add node weight explicit draws)
  assume "step r x = Some r'"
  then have "add r node weight explicit draws = Inr r'" using Add by (auto split: sum.splits)
  then obtain points where "r' = r\<lparr>nodes := nodes r @ [node], nodeKeys := nodeKeys r @ [points],
            keyMap := map_points (keyMap r) points node (weight_of weight), keys := None,
            keyCount := keyCount r + weight_of weight, nodeCount := nodeCount r + 1\<rparr>"
    using add_effect[of r node weight explicit draws r'] by blast
  then show ?thesis by simp
next
  case (Remove node)
  assume "step r x = Some r'"
  then show ?thesis using Remove remove_frame[of r node r'] by (auto split: sum.splits)
next
  case (Get name)
  assume "step r x = Some r'"
  then obtain res where "get r name = Some (res, r')" using Get by auto
  then have "r' = r \<or> r' = r\<lparr>keys := Some (sort (concat (nodeKeys r)))\<rparr>"
    by (auto simp: get_def buildKeys_def Let_def split: option.splits if_splits)
  then show ?thesis by auto
qed

lemma run_range: "run r ops = Some r' \<Longrightarrow> range_cap r' = range_cap r"
proof (induction ops arbitrary: r)
  case Nil
  then show ?case by simp
next
  case (Cons x xs)
  then obtain r1 where r1: "step r x = Some r1" "run r1 xs = Some r'"
    by (auto split: option.splits)
  show ?case using step_range[OF r1(1)] Cons.IH[OF r1(2)] by simp
qed

text \<open>The hash is never negative, so \<^verbatim>\<open>h % range\<close> is the remainder of the division.\<close>

lemma pjwHash_nonneg: "0 \<le> pjwHash s"
proof -
  have "(0 :: 32 word) AND 0xF000000 = 0" by simp
  then have "pjwHash_loop (uint (0 :: 32 word)) s = uint (foldl rolling_step 0 s)"
    by (rule loop_refine)
  then have "pjwHash s = uint (foldl rolling_step 0 s)" by (simp add: pjwHash_def)
  then show ?thesis by simp
qed

lemma js_rem_hash: "0 < m \<Longrightarrow> js_rem (pjwHash s) m = Some (pjwHash s mod m)"
proof -
  assume m: "0 < m"
  show ?thesis
  proof (cases "pjwHash s = 0")
    case True
    then show ?thesis using m by (simp add: js_rem_def)
  next
    case False
    then have "0 < pjwHash s" using pjwHash_nonneg[of s] by simp
    then show ?thesis using m by (simp add: js_rem_def)
  qed
qed

lemmas eval_simps = absearch_small gap_def absearch_scan.simps js_idx_def js_ge_def js_lt_def js_rem_def
  pjwHash_def js_shl_def js_and_def js_xor_def js_ushr_def
  get_def buildKeys_def add_def copy_def map_points_def weight_of_def ConsistentHash_def
  remove.simps Let_def

section \<open>The claims\<close>

subsection \<open>C1: what \<open>get\<close> returns\<close>

text \<open>
  Claim C1, as stated, says that in every ring state reachable through \<open>add\<close>,
  \<open>remove\<close> and \<open>get\<close>, \<open>get\<close> returns \<^verbatim>\<open>null\<close> when the counter of control points is
  zero and a registered node whenever it is positive. The second half fails: \<open>remove\<close>
  leaves the dictionary as it is, so after A and B were both added at point 5 (each
  explicit array as long as its weight) and B was removed, the counter is 1, the only
  registered node is A, and \<open>get\<close> of the empty string returns B.
\<close>

theorem get_stale_node_counterexample:
  "list_all add_matches stale_ops \<and>
   run (ConsistentHash None) stale_ops = Some stale_ring \<and>
   0 < keyCount stale_ring \<and>
   nodes stale_ring = [''A''] \<and>
   get stale_ring [] = Some (JNode ''B'', stale_ring\<lparr>keys := Some [5]\<rparr>) \<and>
   ''B'' \<notin> set (nodes stale_ring)"
  by (simp add: stale_ops_def stale_ring_def eval_simps)

text \<open>
  Claim C1, amended: in every ring state reached from a fresh ring by calls of \<open>add\<close>,
  \<open>remove\<close> and \<open>get\<close> in which each explicit array has as many points as the weight
  says, and which holds at most \<open>2^31\<close> control points, \<open>get\<close> returns \<^verbatim>\<open>null\<close> when the
  counter is zero, and when the counter is positive it returns a node, never
  \<^verbatim>\<open>undefined\<close>: the dictionary's entry for a registered control point, which is a node
  that some earlier \<open>add\<close> was given (it may have been removed since).
\<close>

theorem get_coverage:
  assumes "list_all add_matches ops" and "run (ConsistentHash range_opt) ops = Some r"
    and "length (concat (nodeKeys r)) \<le> 2 ^ 31"
  shows "(keyCount r = 0 \<longrightarrow> (\<exists>r'. get r name = Some (JNull, r'))) \<and>
         (0 < keyCount r \<longrightarrow>
            (\<exists>p x r'. p \<in> set (concat (nodeKeys r)) \<and> keyMap r (Some p) = Some x \<and>
                      x \<in> set (added_nodes ops) \<and> get r name = Some (JNode x, r')))"
proof -
  have inv: "ring_inv r" using run_inv[OF init_inv assms(1,2)] .
  have ran: "ran (keyMap r) \<subseteq> set (added_nodes ops)"
    using run_ran[OF assms(2)] by (simp add: ConsistentHash_def)
  have "\<exists>p x r'. p \<in> set (concat (nodeKeys r)) \<and> keyMap r (Some p) = Some x \<and>
                      x \<in> set (added_nodes ops) \<and> get r name = Some (JNode x, r')"
    if "0 < keyCount r"
  proof -
    have nz: "keyCount r \<noteq> 0" using that by simp
    obtain p x r' where h: "p \<in> set (concat (nodeKeys r))" "keyMap r (Some p) = Some x"
        "get r name = Some (JNode x, r')"
      using get_hit[OF inv nz assms(3), of name] by blast
    have "x \<in> ran (keyMap r)" using h(2) by (auto simp: ran_def)
    then show ?thesis using h ran by blast
  qed
  then show ?thesis using get_null[of r name] by blast
qed

theorem get_coverage_witness:
  "list_all add_matches abc_ops \<and> run (ConsistentHash (Some 100)) abc_ops = Some abc_ring \<and>
   length (concat (nodeKeys abc_ring)) \<le> 2 ^ 31 \<and> 0 < keyCount abc_ring \<and>
   (\<exists>p x r'. p \<in> set (concat (nodeKeys abc_ring)) \<and> keyMap abc_ring (Some p) = Some x \<and>
              x \<in> set (added_nodes abc_ops) \<and> get abc_ring [55] = Some (JNode x, r'))"
proof -
  have wf: "list_all add_matches abc_ops" by (simp add: abc_ops_def weight_of_def)
  have run: "run (ConsistentHash (Some 100)) abc_ops = Some abc_ring"
    by (simp add: abc_ops_def abc_ring_def eval_simps)
  have len: "length (concat (nodeKeys abc_ring)) \<le> 2 ^ 31" by (simp add: abc_ring_def)
  have pos: "0 < keyCount abc_ring" by (simp add: abc_ring_def)
  show ?thesis
    using wf run len pos get_coverage[OF wf run len, of "[55]"] by blast
qed

subsection \<open>C2: explicit control points\<close>

text \<open>
  Claim C2 says that an explicit array of control points is registered whole whatever
  the weight: every point entered into the dictionary, the counter raised by the
  array's length. The code loops and counts with the weight instead. At
  \<^verbatim>\<open>add("A", undefined, [10, 50, 90])\<close> on a fresh ring the array is stored whole, but the
  weight defaults to 1: only point 10 gets a dictionary entry and the counter is 1, so a
  key that lands on point 50 gets \<^verbatim>\<open>undefined\<close>.
\<close>

theorem add_explicit_uses_weight:
  "add (ConsistentHash None) ''A'' None (Some [10, 50, 90]) no_draws = Inr verbatim_ring \<and>
   nodeKeys verbatim_ring = [[10, 50, 90]] \<and>
   keyMap verbatim_ring (Some 10) = Some ''A'' \<and>
   keyMap verbatim_ring (Some 50) = None \<and>
   keyMap verbatim_ring (Some 90) = None \<and>
   keyCount verbatim_ring = 1 \<and>
   get verbatim_ring [50] = Some (JUndefined, verbatim_ring\<lparr>keys := Some [10, 50, 90]\<rparr>)"
  by (simp add: verbatim_ring_def eval_simps)

subsection \<open>C3: the control point allocator\<close>

text \<open>
  Claim C3 says that the allocator redraws a value that is in the dictionary or was
  chosen earlier in the same batch, up to 10 attempts per point. The code tests
  \<^verbatim>\<open>points[key]\<close>, the slot at index \<open>key\<close>, not whether \<open>key\<close> is among the chosen
  values, and it counts the attempts once for the whole batch. With the draws 5, 5, 7
  on an empty ring a batch of two is \<open>[5, 5]\<close>: the repeated 5 is accepted at once
  (no attempt counted, two draws used). With the points 1 and 2 taken and the draws
  1 (ten times), 2, 3 a batch of two is \<open>[1, 2]\<close>: the first point uses up the ten
  attempts, and the second accepts the taken value 2 on its first draw.
\<close>

theorem makeControlPoints_batch_counter:
  "makeControlPoints (ConsistentHash None :: string ring) 2 draws_repeat = Inr [5, 5] \<and>
   makeControlPoints_loop (keyMap (ConsistentHash None :: string ring)) draws_repeat 2 [] 0 0
     = ([5, 5], 0, 2) \<and>
   makeControlPoints taken_ring 2 draws_taken = Inr [1, 2] \<and>
   makeControlPoints_loop (keyMap taken_ring) draws_taken 2 [] 0 0 = ([1, 2], 11, 11)"
  by (simp add: makeControlPoints_def makeControlPoints_loop.simps draw_key.simps
      draws_repeat_def draws_taken_def taken_ring_def ConsistentHash_def)

subsection \<open>C4: the binary search\<close>

text \<open>
  Claim C4, as stated, is about every ascending array of integers. The midpoint is
  computed as \<^verbatim>\<open>(i + j) >>> 1\<close>, which reduces \<open>i + j\<close> modulo \<open>2^32\<close>; once two
  indices can add up to \<open>2^32\<close> the midpoint falls below \<open>i\<close>. On the array of
  \<open>2^32 - 1\<close> zeros the search for 1 moves \<open>i\<close> through \<open>2^31, 2^30, \<dots>, 2, 1\<close> and
  back to \<open>2^31\<close> for ever: it returns nothing.
\<close>

theorem absearch_huge_counterexample:
  "sorted zeros \<and> int (length zeros) = 2 ^ 32 - 1 \<and> absearch zeros (Some 1) = None"
proof -
  have "absearch_bisect zeros (Some 1) 0 (2 ^ 32 - 2) = None"
  proof (cases "absearch_bisect zeros (Some 1) 0 (2 ^ 32 - 2)")
    case None
    then show ?thesis .
  next
    case (Some y)
    then show ?thesis
      using bisect_cycle[of zeros "Some 1" 0 "2 ^ 32 - 2" y] by (simp add: on_cycle_def)
  qed
  then show ?thesis using zeros_sorted zeros_length by (simp add: absearch_def)
qed

text \<open>
  Claim C4, amended: for every ascending array \<open>a\<close> of at most \<open>2^31\<close> integers and
  every integer \<open>h\<close>, \<open>absearch\<close> returns, and it returns the smallest index whose
  element is at least \<open>h\<close> when there is one, 0 when \<open>a\<close> is not empty and \<open>h\<close>
  exceeds every element (the ring wraps around), and -1 when \<open>a\<close> is empty.
\<close>

theorem absearch_spec:
  assumes "sorted a" and "length a \<le> 2 ^ 31"
  shows "(\<forall>m. m < length a \<and> h \<le> a ! m \<and> (\<forall>k < m. a ! k < h) \<longrightarrow> absearch a (Some h) = Some (int m))
       \<and> (a \<noteq> [] \<and> (\<forall>x \<in> set a. x < h) \<longrightarrow> absearch a (Some h) = Some 0)
       \<and> (a = [] \<longrightarrow> absearch a (Some h) = Some (- 1))"
proof (intro conjI allI impI)
  fix m assume "m < length a \<and> h \<le> a ! m \<and> (\<forall>k < m. a ! k < h)"
  then show "absearch a (Some h) = Some (int m)"
    using absearch_found[OF assms, of m h] by blast
next
  assume "a \<noteq> [] \<and> (\<forall>x \<in> set a. x < h)"
  then show "absearch a (Some h) = Some 0"
    using absearch_wrap[OF assms, of h] by simp
next
  assume "a = []"
  then show "absearch a (Some h) = Some (- 1)"
    using absearch_wrap[OF assms, of h] by simp
qed

theorem absearch_spec_witness:
  "sorted [10, 50, 90 :: int] \<and> length [10, 50, 90 :: int] \<le> 2 ^ 31 \<and>
   absearch [10, 50, 90] (Some 55) = Some 2 \<and>
   absearch [10, 50, 90] (Some 95) = Some 0 \<and>
   sorted ([] :: int list) \<and> absearch [] (Some 7) = Some (- 1)"
proof -
  have a: "sorted [10, 50, 90 :: int]" "length [10, 50, 90 :: int] \<le> 2 ^ 31" by simp_all
  have b: "sorted ([] :: int list)" "length ([] :: int list) \<le> 2 ^ 31" by simp_all
  have "\<forall>m. m < length [10, 50, 90 :: int] \<and> 55 \<le> [10, 50, 90 :: int] ! m
          \<and> (\<forall>k < m. [10, 50, 90 :: int] ! k < 55)
        \<longrightarrow> absearch [10, 50, 90] (Some 55) = Some (int m)"
    using absearch_spec[OF a, of 55] by blast
  from this[rule_format, of 2] have "absearch [10, 50, 90] (Some 55) = Some 2"
    by (simp add: numeral_2_eq_2 less_Suc_eq)
  moreover have "absearch [10, 50, 90] (Some 95) = Some 0"
    using absearch_spec[OF a, of 95] by simp
  moreover have "absearch [] (Some 7) = Some (- 1)"
    using absearch_spec[OF b, of 7] by simp
  ultimately show ?thesis by simp
qed

subsection \<open>C5: wrap-around on the ring of A, B and C\<close>

text \<open>
  Claim C5, as stated, says that on a ring of range 100 whose registered control
  points are exactly 10, 50 and 90, owned by A, B and C, a key whose hash modulo 100
  is 95 resolves to A. The owner that \<open>get\<close> reports is the dictionary's entry, and
  \<open>remove\<close> leaves the dictionary as it is: after A and Z were added at point 10 and Z
  was removed, and B and C were added at 50 and 90, the registrations are exactly A
  at 10, B at 50 and C at 90, and the key \<^verbatim>\<open>"_"\<close>, whose hash is 95, resolves to Z.
\<close>

theorem abc_stale_counterexample:
  "list_all add_matches z_ops \<and>
   run (ConsistentHash (Some 100)) z_ops = Some z_ring \<and>
   range_cap z_ring = 100 \<and>
   registrations z_ring = [(''A'', [10]), (''B'', [50]), (''C'', [90])] \<and>
   pjwHash [95] mod 100 = 95 \<and>
   get z_ring [95] = Some (JNode ''Z'', z_ring\<lparr>keys := Some [10, 50, 90]\<rparr>)"
  by (simp add: z_ops_def z_ring_def registrations_def eval_simps)

text \<open>
  Claim C5, amended: on a ring reached from a fresh ring configured with range 100 by
  calls of \<open>add\<close>, \<open>remove\<close> and \<open>get\<close> in which each explicit array has as many points
  as the weight says, whose registered control points are exactly 10, 50 and 90 and
  whose dictionary sends them to the nodes \<open>a\<close>, \<open>b\<close> and \<open>c\<close>, a key whose hash
  modulo 100 is 95 resolves to \<open>a\<close> (wrap-around), 55 to \<open>c\<close>, 10 to \<open>a\<close> (exact
  match) and 0 to \<open>a\<close>.
\<close>

theorem abc_lookup:
  assumes "list_all add_matches ops" and "run (ConsistentHash (Some 100)) ops = Some r"
    and "sort (concat (nodeKeys r)) = [10, 50, 90]"
    and "keyMap r (Some 10) = Some a" and "keyMap r (Some 50) = Some b" and "keyMap r (Some 90) = Some c"
  shows "(pjwHash name mod 100 = 95 \<longrightarrow> map_option fst (get r name) = Some (JNode a)) \<and>
         (pjwHash name mod 100 = 55 \<longrightarrow> map_option fst (get r name) = Some (JNode c)) \<and>
         (pjwHash name mod 100 = 10 \<longrightarrow> map_option fst (get r name) = Some (JNode a)) \<and>
         (pjwHash name mod 100 = 0 \<longrightarrow> map_option fst (get r name) = Some (JNode a))"
proof -
  have inv: "ring_inv r" using run_inv[OF init_inv assms(1,2)] .
  have range: "range_cap r = 100"
    using run_range[OF assms(2)] by (simp add: ConsistentHash_def)
  have "length (sort (concat (nodeKeys r))) = 3" by (simp add: assms(3))
  then have cnt: "keyCount r = 3" using inv by (simp add: ring_inv_def)
  have cache: "keys r = None \<or> keys r = Some [10, 50, 90]"
    using inv assms(3) by (simp add: ring_inv_def)
  define r1 where "r1 = (case keys r of None \<Rightarrow> r\<lparr>keys := Some [10, 50, 90]\<rparr> | Some c \<Rightarrow> r)"
  have pre: "(case keys r of None \<Rightarrow> buildKeys r | Some c \<Rightarrow> (c, r)) = ([10, 50, 90], r1)"
    using assms(3) cache by (auto simp: buildKeys_def r1_def Let_def)
  have r1: "keyCount r1 = 3" "keyMap r1 = keyMap r" "range_cap r1 = 100"
    using range cnt by (simp_all add: r1_def split: option.splits)
  have h: "js_rem (pjwHash name) 100 = Some (pjwHash name mod 100)"
    by (rule js_rem_hash) simp
  have s95: "absearch [10, 50, 90] (Some 95) = Some 0"
    by (simp add: absearch_small gap_def absearch_scan.simps js_idx_def js_ge_def)
  have s55: "absearch [10, 50, 90] (Some 55) = Some 2"
    by (simp add: absearch_small gap_def absearch_scan.simps js_idx_def js_ge_def)
  have s10: "absearch [10, 50, 90] (Some 10) = Some 0"
    by (simp add: absearch_small gap_def absearch_scan.simps js_idx_def js_ge_def)
  have s0: "absearch [10, 50, 90] (Some 0) = Some 0"
    by (simp add: absearch_small gap_def absearch_scan.simps js_idx_def js_ge_def)
  show ?thesis
    unfolding get_def pre using assms(4,5,6) r1 h s95 s55 s10 s0
    by (simp add: Let_def js_idx_def)
qed

theorem abc_lookup_witness:
  "list_all add_matches abc_ops \<and>
   run (ConsistentHash (Some 100)) abc_ops = Some abc_ring \<and>
   pjwHash [95] mod 100 = 95 \<and> map_option fst (get abc_ring [95]) = Some (JNode ''A'') \<and>
   pjwHash [55] mod 100 = 55 \<and> map_option fst (get abc_ring [55]) = Some (JNode ''C'') \<and>
   pjwHash [10] mod 100 = 10 \<and> map_option fst (get abc_ring [10]) = Some (JNode ''A'') \<and>
   pjwHash [] mod 100 = 0 \<and> map_option fst (get abc_ring []) = Some (JNode ''A'')"
proof -
  have wf: "list_all add_matches abc_ops" by (simp add: abc_ops_def weight_of_def)
  have run: "run (ConsistentHash (Some 100)) abc_ops = Some abc_ring"
    by (simp add: abc_ops_def abc_ring_def eval_simps)
  have h: "sort (concat (nodeKeys abc_ring)) = [10, 50, 90]"
    "keyMap abc_ring (Some 10) = Some ''A''" "keyMap abc_ring (Some 50) = Some ''B''"
    "keyMap abc_ring (Some 90) = Some ''C''"
    by (simp_all add: abc_ring_def)
  have k: "pjwHash [95] mod 100 = 95" "pjwHash [55] mod 100 = 55"
    "pjwHash [10] mod 100 = 10" "pjwHash [] mod 100 = 0"
    by (simp_all add: pjwHash_def js_shl_def js_and_def js_xor_def js_ushr_def)
  show ?thesis
    using wf run k abc_lookup[OF wf run h, of "[95]"] abc_lookup[OF wf run h, of "[55]"]
      abc_lookup[OF wf run h, of "[10]"] abc_lookup[OF wf run h, of "[]"]
    by simp
qed

subsection \<open>C6: removing a node\<close>

text \<open>
  Claim C6: \<open>remove\<close> removes every registration of the node, duplicates included; the
  counter of control points goes down by the length of each removed registration's
  list and the counter of nodes by one per removed registration; the cache of sorted
  points is dropped; and when the node has no registration the ring is returned
  unchanged. The parallel arrays have one length, as they do in every reachable state.
\<close>

theorem remove_all_registrations:
  assumes "length (nodes r) = length (nodeKeys r)"
  shows "\<exists>r'. remove r node = Inr r' \<and>
     mset (registrations r') = mset (filter (\<lambda>p. fst p \<noteq> node) (registrations r)) \<and>
     keyCount r' = keyCount r
        - int (sum_list (map (\<lambda>p. length (snd p)) (filter (\<lambda>p. fst p = node) (registrations r)))) \<and>
     nodeCount r' = nodeCount r - int (length (filter (\<lambda>p. fst p = node) (registrations r))) \<and>
     (node \<in> set (nodes r) \<longrightarrow> keys r' = None) \<and>
     (node \<notin> set (nodes r) \<longrightarrow> r' = r)"
proof -
  obtain r' where r': "remove r node = Inr r'"
     "mset (registrations r') = filter_mset (\<lambda>p. fst p \<noteq> node) (mset (registrations r))"
     "keyCount r' = keyCount r - (\<Sum>p\<in>#filter_mset (\<lambda>p. fst p = node) (mset (registrations r)). int (length (snd p)))"
     "nodeCount r' = nodeCount r - int (size (filter_mset (\<lambda>p. fst p = node) (mset (registrations r))))"
     "node \<in> set (nodes r) \<longrightarrow> keys r' = None" "node \<notin> set (nodes r) \<longrightarrow> r' = r"
    using remove_spec[OF assms, of node] by blast
  have sum: "int (sum_list (map (\<lambda>p. length (snd p)) xs)) = (\<Sum>p\<in>#mset xs. int (length (snd p)))"
    for xs :: "('a \<times> int list) list"
    by (induction xs) auto
  have "keyCount r' = keyCount r
        - int (sum_list (map (\<lambda>p. length (snd p)) (filter (\<lambda>p. fst p = node) (registrations r))))"
    using r'(3) by (simp add: sum)
  moreover have "nodeCount r' = nodeCount r - int (length (filter (\<lambda>p. fst p = node) (registrations r)))"
    using r'(4) by (simp flip: size_mset)
  ultimately show ?thesis using r'(1,2,5,6) by simp
qed

theorem remove_all_registrations_witness:
  "run (ConsistentHash None) dup_ops = Some dup_ring \<and>
   length (nodes dup_ring) = length (nodeKeys dup_ring) \<and>
   (\<exists>r'. remove dup_ring ''X'' = Inr r' \<and> mset (registrations r') = {#(''Y'', [7, 8])#} \<and>
      keyCount r' = 2 \<and> nodeCount r' = 1 \<and> keys r' = None)"
proof -
  have run: "run (ConsistentHash None) dup_ops = Some dup_ring"
    by (simp add: dup_ops_def dup_ring_def eval_simps numeral_2_eq_2)
  have len: "length (nodes dup_ring) = length (nodeKeys dup_ring)" by (simp add: dup_ring_def)
  show ?thesis
    using run len remove_all_registrations[OF len, of "''X''"]
    by (simp add: dup_ring_def registrations_def)
qed

subsection \<open>C7: the string hash\<close>

text \<open>
  Claim C7: the hash is a function of the sequence of character codes alone, computed
  by the rolling scheme (shift left by 4 and add the code; when bits 24 to 27 are set,
  xor them out and xor them, shifted right by 24, into the low byte), and the empty
  string hashes to 0. \<open>pjwHash\<close> takes the code units and nothing else; run on
  JavaScript numbers, it computes what the scheme computes on unsigned 32-bit words.
\<close>

theorem pjwHash_rolling:
  "pjwHash s = uint (rolling_hash s) \<and> pjwHash [] = 0"
proof
  have "(0 :: 32 word) AND 0xF000000 = 0" by simp
  then have "pjwHash_loop (uint (0 :: 32 word)) s = uint (foldl rolling_step 0 s)"
    by (rule loop_refine)
  then show "pjwHash s = uint (rolling_hash s)" by (simp add: pjwHash_def rolling_hash_def)
  show "pjwHash [] = 0" by (simp add: pjwHash_def)
qed

theorem pjwHash_rolling_witness:
  "pjwHash [97, 98, 99] = uint (rolling_hash [97, 98, 99]) \<and> pjwHash [97, 98, 99] = 26499 \<and>
   pjwHash [] = 0"
  using pjwHash_rolling[of "[97, 98, 99]"]
  by (simp add: pjwHash_def js_shl_def js_and_def js_xor_def js_ushr_def)

subsection \<open>C8: the counter of control points\<close>

text \<open>
  Claim C8 says that in every reachable state the counter of control points is the
  sum of the lengths of the registered lists. \<open>add\<close> raises the counter by the weight
  and not by the length of the explicit array, while \<open>remove\<close> lowers it by the length
  of the list: after \<^verbatim>\<open>add("A", undefined, [10, 50, 90])\<close> on a fresh ring the counter is 1
  and the lengths sum to 3.
\<close>

theorem keyCount_not_sum_of_points:
  "run (ConsistentHash None) verbatim_ops = Some verbatim_ring \<and>
   keyCount verbatim_ring = 1 \<and>
   int (sum_list (map length (nodeKeys verbatim_ring))) = 3"
  by (simp add: verbatim_ops_def verbatim_ring_def eval_simps)

subsection \<open>C9: \<open>remove\<close> leaves the dictionary alone\<close>

text \<open>
  Claim C9: \<open>remove\<close> never deletes an entry of the dictionary from control point to
  node: whenever it returns, the dictionary is what it was before the call, and it
  does return when the parallel arrays have one length. The entries of the removed
  node stay behind.
\<close>

theorem remove_keeps_keyMap:
  "(remove r node = Inr r' \<longrightarrow> keyMap r' = keyMap r) \<and>
   (length (nodes r) = length (nodeKeys r) \<longrightarrow> (\<exists>r2. remove r node = Inr r2 \<and> keyMap r2 = keyMap r))"
proof (intro conjI impI)
  assume "remove r node = Inr r'"
  then show "keyMap r' = keyMap r" using remove_frame[of r node r'] by simp
next
  assume "length (nodes r) = length (nodeKeys r)"
  then show "\<exists>r2. remove r node = Inr r2 \<and> keyMap r2 = keyMap r"
    using remove_spec[of r node] by blast
qed

theorem remove_keeps_keyMap_witness:
  "length (nodes one_ring) = length (nodeKeys one_ring) \<and>
   remove one_ring ''A'' = Inr (one_ring\<lparr>nodes := [], nodeKeys := [], keyCount := 0, nodeCount := 0\<rparr>) \<and>
   (\<exists>r2. remove one_ring ''A'' = Inr r2 \<and> nodes r2 = [] \<and> keyMap r2 (Some 5) = Some ''A'')"
proof -
  have ev: "remove one_ring ''A'' = Inr (one_ring\<lparr>nodes := [], nodeKeys := [], keyCount := 0, nodeCount := 0\<rparr>)"
    by (simp add: one_ring_def remove.simps Let_def js_idx_def)
  show ?thesis
    using ev remove_keeps_keyMap[of one_ring "''A''" "one_ring\<lparr>nodes := [], nodeKeys := [], keyCount := 0, nodeCount := 0\<rparr>"]
    by (simp add: one_ring_def)
qed

subsection \<open>C10: a weight of zero\<close>

text \<open>
  Claim C10: \<open>add\<close> with weight 0 and no explicit points does what \<open>add\<close> with weight 1
  does: the node is registered with exactly one allocated control point, entered into
  the dictionary, and both counters go up by 1.
\<close>

theorem add_weight_zero:
  "add r node (Some 0) None draws = add r node (Some 1) None draws \<and>
   (\<exists>p r'. add r node (Some 0) None draws = Inr r' \<and>
      nodes r' = nodes r @ [node] \<and> nodeKeys r' = nodeKeys r @ [[p]] \<and>
      keyMap r' = (keyMap r)(Some p \<mapsto> node) \<and> keys r' = None \<and>
      keyCount r' = keyCount r + 1 \<and> nodeCount r' = nodeCount r + 1)"
proof
  show "add r node (Some 0) None draws = add r node (Some 1) None draws"
    by (simp add: add_def weight_of_def)
  have "makeControlPoints r 1 draws = Inr [int (fst (draw_key (keyMap r) [] draws 0 0))]"
    by (simp add: makeControlPoints_def loop_one)
  then show "\<exists>p r'. add r node (Some 0) None draws = Inr r' \<and>
      nodes r' = nodes r @ [node] \<and> nodeKeys r' = nodeKeys r @ [[p]] \<and>
      keyMap r' = (keyMap r)(Some p \<mapsto> node) \<and> keys r' = None \<and>
      keyCount r' = keyCount r + 1 \<and> nodeCount r' = nodeCount r + 1"
    by (simp add: add_def weight_of_def map_points_one)
qed

theorem add_weight_zero_witness:
  "add one_ring ''B'' (Some 0) None draws_repeat = add one_ring ''B'' (Some 1) None draws_repeat \<and>
   (\<exists>r'. add one_ring ''B'' (Some 0) None draws_repeat = Inr r' \<and>
      nodes r' = [''A'', ''B''] \<and> nodeKeys r' = [[5], [7]] \<and>
      keyMap r' (Some 7) = Some ''B'' \<and> keyCount r' = 2 \<and> nodeCount r' = 2)"
proof -
  have d: "draw_key (keyMap one_ring) [] draws_repeat 0 0 = (7, 2, 3)"
    by (simp add: draw_key.simps one_ring_def draws_repeat_def)
  have "makeControlPoints one_ring 1 draws_repeat = Inr [7]"
    using d by (simp add: makeControlPoints_def loop_one)
  then have "add one_ring ''B'' (Some 0) None draws_repeat =
      Inr (one_ring\<lparr>nodes := [''A'', ''B''], nodeKeys := [[5], [7]],
             keyMap := (keyMap one_ring)(Some 7 \<mapsto> ''B''), keys := None,
             keyCount := 2, nodeCount := 2\<rparr>)"
    by (simp add: add_def weight_of_def map_points_one one_ring_def)
  then show ?thesis
    using add_weight_zero[of one_ring "''B''" draws_repeat] by simp
qed

end
